theory Spec2Isabelle
  imports Complex_Main "HOL-Library.Word" "HOL-Library.Signed_Division"
begin

section \<open>Data model\<close>

text \<open>
  Bytes are \<open>uint8_t\<close>. A \<open>cv::Mat\<close> is modelled by its geometry, its element type and
  its (continuous, row-major) byte buffer. \<open>CV_8U\<close> is \<open>CV_8UC1\<close>. The numbers of rows
  and columns are natural numbers: the pixel and byte counts of a video frame, which the
  code holds in \<open>int\<close>s, are far inside the range of \<open>int\<close>.
\<close>

type_synonym u8 = "8 word"

datatype mat_type = CV_8UC1 | CV_8UC2 | CV_8UC3

record Mat =
  rows :: nat
  cols :: nat
  mtype :: mat_type
  data :: "u8 list"

fun channels :: "mat_type \<Rightarrow> nat" where
  "channels CV_8UC1 = 1"
| "channels CV_8UC2 = 2"
| "channels CV_8UC3 = 3"

text \<open>A matrix whose buffer has exactly one byte per element and channel.\<close>

definition wf_mat :: "Mat \<Rightarrow> bool" where
  "wf_mat m = (length (data m) = rows m * cols m * channels (mtype m))"

text \<open>\<open>cv::Mat::zeros(size, type)\<close>.\<close>

definition Mat_zeros :: "nat \<Rightarrow> nat \<Rightarrow> mat_type \<Rightarrow> Mat" where
  "Mat_zeros r c t = \<lparr>rows = r, cols = c, mtype = t, data = replicate (r * c * channels t) 0\<rparr>"

section \<open>alpha_blend\<close>

text \<open>
  One channel byte of \<open>alpha_blend\<close>:
  \<open>(uint8_t)(( (int)a*aw + (int)b*bw )/255)\<close>; \<open>sdiv\<close> is C's truncating division.
\<close>

definition blend_byte :: "u8 \<Rightarrow> u8 \<Rightarrow> int \<Rightarrow> int \<Rightarrow> u8" where
  "blend_byte a b aw bw = word_of_int ((uint a * aw + uint b * bw) sdiv 255)"

text \<open>
  The pixel loop. The four pointers \<open>optr\<close>, \<open>aptr\<close>, \<open>bptr\<close> (three bytes per pixel)
  and \<open>mptr\<close> (one byte per pixel) advance in lockstep, so at pixel \<open>pix\<close> they stand at
  offsets \<open>3 * pix\<close> and \<open>pix\<close>.
\<close>

function alpha_blend_loop ::
  "nat \<Rightarrow> nat \<Rightarrow> u8 list \<Rightarrow> u8 list \<Rightarrow> u8 list \<Rightarrow> u8 list \<Rightarrow> u8 list" where
  "alpha_blend_loop pix npix a b m out =
     (if pix < npix then
        (let aw = uint (m ! pix); bw = 255 - aw in
         alpha_blend_loop (pix + 1) npix a b m
           (out[3 * pix := blend_byte (a ! (3 * pix)) (b ! (3 * pix)) aw bw,
                3 * pix + 1 := blend_byte (a ! (3 * pix + 1)) (b ! (3 * pix + 1)) aw bw,
                3 * pix + 2 := blend_byte (a ! (3 * pix + 2)) (b ! (3 * pix + 2)) aw bw]))
      else out)"
  by pat_completeness auto
termination
  by (relation "measure (\<lambda>(pix, npix, a, b, m, out). npix - pix)") auto

declare alpha_blend_loop.simps [simp del]

text \<open>
  \<open>alpha_blend(srca, srcb, mask)\<close>: the seven assertions abort the program (\<open>None\<close>);
  otherwise the result has the size and type of \<open>srca\<close>. The parameter \<open>mask\<close> is written
  \<open>msk\<close>.
\<close>

definition alpha_blend :: "Mat \<Rightarrow> Mat \<Rightarrow> Mat \<Rightarrow> Mat option" where
  "alpha_blend srca srcb msk =
     (if rows srca = rows srcb \<and> cols srca = cols srcb
         \<and> rows msk = rows srca \<and> cols msk = cols srca
         \<and> mtype srca = CV_8UC3 \<and> mtype srcb = CV_8UC3 \<and> mtype msk = CV_8UC1
      then
        (let out = Mat_zeros (rows srca) (cols srca) (mtype srca);
             npix = rows srca * cols srca
         in Some (out\<lparr>data := alpha_blend_loop 0 npix (data srca) (data srcb) (data msk) (data out)\<rparr>))
      else None)"

section \<open>convert_rgb_to_yuyv\<close>

text \<open>
  \<open>cv::cvtColor(input, tmp, cv::COLOR_RGB2YUV)\<close> and \<open>cv::split\<close> are OpenCV's. The
  conversion works pixel by pixel, so it is a parameter \<open>rgb2yuv\<close> that maps the three
  bytes of a pixel to its luma and its two chroma bytes \<open>(y, u, v)\<close>; the three planes
  \<open>yuv[0]\<close>, \<open>yuv[1]\<close>, \<open>yuv[2]\<close> hold one byte per pixel each.
\<close>

fun pixels :: "u8 list \<Rightarrow> (u8 \<times> u8 \<times> u8) list" where
  "pixels (r # g # b # rest) = (r, g, b) # pixels rest"
| "pixels rest = []"

definition cvtColor_split ::
  "(u8 \<times> u8 \<times> u8 \<Rightarrow> u8 \<times> u8 \<times> u8) \<Rightarrow> Mat \<Rightarrow> u8 list \<times> u8 list \<times> u8 list" where
  "cvtColor_split rgb2yuv input =
     (let tmp = map rgb2yuv (pixels (data input))
      in (map fst tmp, map (fst \<circ> snd) tmp, map (snd \<circ> snd) tmp))"

text \<open>The chroma of a pair: \<open>(uint8_t)(((int)c0 + (int)c1) / 2)\<close>.\<close>

definition chroma_pair :: "u8 \<Rightarrow> u8 \<Rightarrow> u8" where
  "chroma_pair c0 c1 = word_of_int ((uint c0 + uint c1) sdiv 2)"

text \<open>
  The packing loop, two pixels per round; \<open>tot\<close> is \<open>yuyv.total()\<close>, the number of
  pixels. With an odd number of pixels the last round
  reads \<open>udata[i+1]\<close>, \<open>vdata[i+1]\<close>, \<open>ydata[i+1]\<close> and writes \<open>outdata[2*i+2]\<close>,
  \<open>outdata[2*i+3]\<close> past the end of the buffers: undefined behaviour, \<open>None\<close>.
\<close>

function yuyv_loop ::
  "nat \<Rightarrow> nat \<Rightarrow> u8 list \<Rightarrow> u8 list \<Rightarrow> u8 list \<Rightarrow> u8 list \<Rightarrow> u8 list option" where
  "yuyv_loop i tot ydata udata vdata outdata =
     (if i < tot then
        (if i + 1 < tot then
           (let u = chroma_pair (udata ! i) (udata ! (i + 1));
                v = chroma_pair (vdata ! i) (vdata ! (i + 1))
            in yuyv_loop (i + 2) tot ydata udata vdata
                 (outdata[2 * i + 0 := ydata ! (i + 0),
                          2 * i + 1 := v,
                          2 * i + 2 := ydata ! (i + 1),
                          2 * i + 3 := u]))
         else None)
      else Some outdata)"
  by pat_completeness auto
termination
  by (relation "measure (\<lambda>(i, tot, ydata, udata, vdata, outdata). tot - i)") auto

declare yuyv_loop.simps [simp del]

text \<open>
  \<open>convert_rgb_to_yuyv(input)\<close>. The output matrix \<open>yuyv(tmp.rows, tmp.cols, CV_8UC2)\<close>
  is allocated without initialisation; its bytes start here as zeros and the loop
  overwrites every one of them.
\<close>

definition convert_rgb_to_yuyv ::
  "(u8 \<times> u8 \<times> u8 \<Rightarrow> u8 \<times> u8 \<times> u8) \<Rightarrow> Mat \<Rightarrow> Mat option" where
  "convert_rgb_to_yuyv rgb2yuv input =
     (case cvtColor_split rgb2yuv input of (ydata, udata, vdata) \<Rightarrow>
        (let tot = rows input * cols input
         in map_option (\<lambda>outdata. \<lparr>rows = rows input, cols = cols input, mtype = CV_8UC2, data = outdata\<rparr>)
              (yuyv_loop 0 tot ydata udata vdata (replicate (tot * 2) 0))))"

text \<open>
  The spec's words for the chroma of a pair, "the rounded average of the pair's chroma
  values": the mean of the two values, rounded to the nearest integer. It is compared
  with \<open>chroma_pair\<close> below.
\<close>

definition spec_rounded_average :: "int \<Rightarrow> int \<Rightarrow> int" where
  "spec_rounded_average c0 c1 = round (real_of_int (c0 + c1) / 2)"

section \<open>CalcMask\<close>

text \<open>
  The mask engine. The two frame buffers and the two mask buffers are fields of the
  object; \<open>frame_current\<close>, \<open>frame_next\<close>, \<open>mask_current\<close> and \<open>mask_out\<close> are pointers to
  them, modelled as references that are dereferenced explicitly, so that a pointer swap
  exchanges which buffer a name refers to and copies no bytes.

  The worker thread executes \<open>run\<close>; the field \<open>worker\<close> is its control point. One step of
  the worker is one of the sections of \<open>run\<close> that are atomic for the other thread: the
  loop test, the block under \<open>lock_frame\<close> (the condition wait releases that lock while
  the worker sleeps), the call of \<open>bs_maskgen_process\<close>, the publication under
  \<open>lock_mask\<close>, and the release of \<open>lock_mask\<close> at the end of the loop body. The field
  \<open>lock_mask_held\<close> says that the worker holds \<open>lock_mask\<close>. The field \<open>inferred\<close> records
  the frames that were handed to \<open>bs_maskgen_process\<close>, in order.
\<close>

datatype thread_state = RUNNING | DONE

datatype frame_ref = Frame1 | Frame2

datatype mask_ref = Mask1 | Mask2

datatype worker_pc = AtLoopTest | AtWaitFrame | AtProcess | AtPublish | AtIterEnd | Exited | Failed

record CalcMask =
  state :: thread_state
  mask1 :: Mat
  mask2 :: Mat
  mask_current :: mask_ref
  mask_out :: mask_ref
  frame1 :: Mat
  frame2 :: Mat
  frame_current :: frame_ref
  frame_next :: frame_ref
  new_frame :: bool
  new_mask :: bool
  lock_mask_held :: bool
  worker :: worker_pc
  inferred :: "Mat list"

fun deref_frame :: "CalcMask \<Rightarrow> frame_ref \<Rightarrow> Mat" where
  "deref_frame s Frame1 = frame1 s"
| "deref_frame s Frame2 = frame2 s"

fun assign_frame :: "frame_ref \<Rightarrow> Mat \<Rightarrow> CalcMask \<Rightarrow> CalcMask" where
  "assign_frame Frame1 m s = s\<lparr>frame1 := m\<rparr>"
| "assign_frame Frame2 m s = s\<lparr>frame2 := m\<rparr>"

fun deref_mask :: "CalcMask \<Rightarrow> mask_ref \<Rightarrow> Mat" where
  "deref_mask s Mask1 = mask1 s"
| "deref_mask s Mask2 = mask2 s"

fun assign_mask :: "mask_ref \<Rightarrow> Mat \<Rightarrow> CalcMask \<Rightarrow> CalcMask" where
  "assign_mask Mask1 m s = s\<lparr>mask1 := m\<rparr>"
| "assign_mask Mask2 m s = s\<lparr>mask2 := m\<rparr>"

text \<open>A default-constructed \<open>cv::Mat\<close>.\<close>

definition Mat_empty :: Mat where
  "Mat_empty = \<lparr>rows = 0, cols = 0, mtype = CV_8UC1, data = []\<rparr>"

text \<open>The constructor, after \<open>bs_maskgen_new\<close> has succeeded; the worker thread starts at
  the loop test.\<close>

definition CalcMask_new :: CalcMask where
  "CalcMask_new =
     \<lparr>state = RUNNING,
      mask1 = Mat_empty, mask2 = Mat_empty, mask_current = Mask1, mask_out = Mask2,
      frame1 = Mat_empty, frame2 = Mat_empty, frame_current = Frame2, frame_next = Frame1,
      new_frame = False, new_mask = False, lock_mask_held = False,
      worker = AtLoopTest, inferred = []\<rparr>"

text \<open>
  One step of \<open>run\<close>. The inference \<open>bs_maskgen_process(maskctx, *frame_current,
  *mask_current)\<close> is outside this repository's files: it is the parameter \<open>maskgen\<close>, which
  maps the frame to the mask that it writes into \<open>*mask_current\<close>, or to \<open>None\<close> when it
  returns false (the worker then prints a message and calls \<open>exit(1)\<close>).
  At \<open>AtWaitFrame\<close> the worker holds \<open>lock_frame\<close> and runs
  \<open>while (!new_frame) wait\<close>: without a new frame it stays there, asleep.
\<close>

fun run_step :: "(Mat \<Rightarrow> Mat option) \<Rightarrow> CalcMask \<Rightarrow> CalcMask" where
  "run_step maskgen s =
     (case worker s of
        AtLoopTest \<Rightarrow>
          (if state s = RUNNING then s\<lparr>worker := AtWaitFrame\<rparr> else s\<lparr>worker := Exited\<rparr>)
      | AtWaitFrame \<Rightarrow>
          (if new_frame s
           then s\<lparr>new_frame := False,
                  frame_next := frame_current s,
                  frame_current := frame_next s,
                  worker := AtProcess\<rparr>
           else s)
      | AtProcess \<Rightarrow>
          (let frame = deref_frame s (frame_current s);
               s' = s\<lparr>inferred := inferred s @ [frame]\<rparr>
           in case maskgen frame of
                None \<Rightarrow> s'\<lparr>worker := Failed\<rparr>
              | Some m \<Rightarrow> (assign_mask (mask_current s) m s')\<lparr>worker := AtPublish\<rparr>)
      | AtPublish \<Rightarrow>
          s\<lparr>lock_mask_held := True,
            mask_out := mask_current s,
            mask_current := mask_out s,
            new_mask := True,
            worker := AtIterEnd\<rparr>
      | AtIterEnd \<Rightarrow> s\<lparr>lock_mask_held := False, worker := AtLoopTest\<rparr>
      | Exited \<Rightarrow> s
      | Failed \<Rightarrow> s)"

text \<open>\<open>set_input_frame(frame)\<close>, under \<open>lock_frame\<close>: \<open>*frame_next = frame.clone()\<close>,
  \<open>new_frame = true\<close>, notify. It neither reads \<open>new_frame\<close> nor waits for the worker.\<close>

definition set_input_frame :: "Mat \<Rightarrow> CalcMask \<Rightarrow> CalcMask" where
  "set_input_frame frame s = (assign_frame (frame_next s) frame s)\<lparr>new_frame := True\<rparr>"

text \<open>
  \<open>get_output_mask(out)\<close> returns the object and the caller's buffer \<open>out\<close> after the
  call. It tests \<open>new_mask\<close> first and takes \<open>lock_mask\<close> only when the flag is set; the
  result \<open>None\<close> says that the caller has to wait there for the worker to release the
  lock.
\<close>

definition get_output_mask :: "CalcMask \<Rightarrow> Mat \<Rightarrow> (CalcMask \<times> Mat) option" where
  "get_output_mask s out =
     (if new_mask s
      then (if lock_mask_held s then None
            else Some (s\<lparr>new_mask := False\<rparr>, deref_mask s (mask_out s)))
      else Some (s, out))"

text \<open>
  The destructor up to \<open>thread.join()\<close>: it marks the state as done, sets \<open>new_frame\<close>
  itself although no frame was submitted, and notifies the condition variable. It then
  joins the worker, that is, waits until the worker has left \<open>run\<close>.
\<close>

definition destructor_signal :: "CalcMask \<Rightarrow> CalcMask" where
  "destructor_signal s = s\<lparr>state := DONE, new_frame := True\<rparr>"

text \<open>Several steps of the worker in a row, while the other thread does nothing.\<close>

fun run_steps :: "(Mat \<Rightarrow> Mat option) \<Rightarrow> nat \<Rightarrow> CalcMask \<Rightarrow> CalcMask" where
  "run_steps maskgen 0 s = s"
| "run_steps maskgen (Suc n) s = run_steps maskgen n (run_step maskgen s)"

text \<open>An inference function for examples: it succeeds with a mask of the frame's geometry
  that is 0 everywhere.\<close>

definition blank_maskgen :: "Mat \<Rightarrow> Mat option" where
  "blank_maskgen frame = Some (Mat_zeros (rows frame) (cols frame) CV_8UC1)"

section \<open>The virtual output device\<close>

text \<open>
  The system calls that \<open>loopback_init\<close> and \<open>loopback_free\<close> make. The kernel is a
  parameter \<open>sys\<close> that gives the return value of each call; the functions return their
  own return value, the calls they made in order, and the messages they printed.
\<close>

datatype syscall =
    OPEN string
  | VIDIOC_QUERYCAP int
  | VIDIOC_S_FMT int int int
  | VIDIOC_STREAMON int
  | VIDIOC_STREAMOFF int
  | CLOSE int

definition loopback_init :: "(syscall \<Rightarrow> int) \<Rightarrow> string \<Rightarrow> int \<Rightarrow> int \<Rightarrow> int \<times> syscall list \<times> string list" where
  "loopback_init sys device w h =
     (let fdwr = sys (OPEN device) in
      if fdwr < 0 then (- 1, [OPEN device], [''Failed to open video device''])
      else if sys (VIDIOC_QUERYCAP fdwr) < 0
      then (- 1, [OPEN device, VIDIOC_QUERYCAP fdwr, CLOSE fdwr],
            [''Failed to query device capabilities''])
      else if sys (VIDIOC_S_FMT fdwr w h) < 0
      then (- 1, [OPEN device, VIDIOC_QUERYCAP fdwr, VIDIOC_S_FMT fdwr w h, CLOSE fdwr],
            [''Failed to set device video format''])
      else if sys (VIDIOC_STREAMON fdwr) < 0
      then (- 1, [OPEN device, VIDIOC_QUERYCAP fdwr, VIDIOC_S_FMT fdwr w h, VIDIOC_STREAMON fdwr,
                  CLOSE fdwr],
            [''Failed to start streaming''])
      else (fdwr, [OPEN device, VIDIOC_QUERYCAP fdwr, VIDIOC_S_FMT fdwr w h, VIDIOC_STREAMON fdwr], []))"

definition loopback_free :: "(syscall \<Rightarrow> int) \<Rightarrow> int \<Rightarrow> int \<times> syscall list \<times> string list" where
  "loopback_free sys fdwr =
     (let ret_code = sys (VIDIOC_STREAMOFF fdwr) in
      if ret_code < 0 then (- 1, [VIDIOC_STREAMOFF fdwr], [''Failed to stop streaming''])
      else
        (let ret_code = sys (CLOSE fdwr) in
         if ret_code < 0
         then (- 1, [VIDIOC_STREAMOFF fdwr, CLOSE fdwr], [''Failed to close video device''])
         else (0, [VIDIOC_STREAMOFF fdwr, CLOSE fdwr], [])))"

section \<open>Writing a frame to the device\<close>

text \<open>
  The write loop of \<open>main\<close>. \<open>sys_write k count\<close> is what the \<open>k\<close>-th call
  \<open>write(lbfd, raw[idx].data, count)\<close> returns. Every call passes \<open>raw[idx].data\<close>, the
  start of the buffer, so a call that returns \<open>ret\<close> has handed the first \<open>ret\<close> bytes of
  the buffer to the device; \<open>sent\<close> collects the bytes the device has received. A return
  value \<open>ret \<le> 0\<close> ends the program (\<open>perror\<close>, \<open>exit(1)\<close>).
\<close>

datatype fatal = WriteFailed

function write_loop ::
  "(nat \<Rightarrow> int \<Rightarrow> int) \<Rightarrow> nat \<Rightarrow> u8 list \<Rightarrow> int \<Rightarrow> u8 list \<Rightarrow> fatal + u8 list" where
  "write_loop sys_write k buf framesize sent =
     (if framesize > 0 then
        (let ret = sys_write k framesize in
         if ret \<le> 0 then Inl WriteFailed
         else write_loop sys_write (k + 1) buf (framesize - ret)
                (sent @ take (nat ret) (take (nat framesize) buf)))
      else Inr sent)"
  by pat_completeness auto
termination
  by (relation "measure (\<lambda>(sys_write, k, buf, framesize, sent). nat framesize)") auto

declare write_loop.simps [simp del]

text \<open>\<open>int framesize = raw[idx].step[0]*raw[idx].rows\<close> is the size of the packed frame.\<close>

definition write_frame :: "(nat \<Rightarrow> int \<Rightarrow> int) \<Rightarrow> Mat \<Rightarrow> fatal + u8 list" where
  "write_frame sys_write frame = write_loop sys_write 0 (data frame) (int (length (data frame))) []"

section \<open>main: the geometry of capture and output\<close>

text \<open>
  The part of \<open>main\<close> that establishes the two geometries. \<open>settings\<close> holds the local
  variables concerned, with their initial values. An \<open>option_arg\<close> is one geometry
  option of the command line with the numbers that \<open>sscanf\<close> read from its argument;
  \<open>usage(name, 1, ...)\<close> prints and calls \<open>exit(1)\<close>. C's \<open>%\<close> is \<open>smod\<close>.
\<close>

record settings =
  width :: int
  height :: int
  setWorH :: bool
  capGeo :: "(int \<times> int) option"
  vidGeo :: "(int \<times> int) option"

definition initial_settings :: settings where
  "initial_settings = \<lparr>width = 640, height = 480, setWorH = False, capGeo = None, vidGeo = None\<rparr>"

datatype option_arg = Opt_w int | Opt_h int | Opt_cg int int | Opt_vg int int

datatype exit = Usage

fun parse_option :: "option_arg \<Rightarrow> settings \<Rightarrow> exit + settings" where
  "parse_option (Opt_w w) c =
     (if w = 0 then Inl Usage else Inr (c\<lparr>width := w + w smod 2, setWorH := True\<rparr>))"
| "parse_option (Opt_h h) c =
     (if h = 0 then Inl Usage else Inr (c\<lparr>height := h, setWorH := True\<rparr>))"
| "parse_option (Opt_cg w h) c =
     (if w < 1 \<or> h < 1 then Inl Usage else Inr (c\<lparr>capGeo := Some (w, h)\<rparr>))"
| "parse_option (Opt_vg w h) c =
     (if w < 1 \<or> h < 1 then Inl Usage else Inr (c\<lparr>vidGeo := Some (w + w smod 2, h)\<rparr>))"

fun parse_options :: "option_arg list \<Rightarrow> settings \<Rightarrow> exit + settings" where
  "parse_options [] c = Inr c"
| "parse_options (a # args) c =
     (case parse_option a c of Inl e \<Rightarrow> Inl e | Inr c' \<Rightarrow> parse_options args c')"

text \<open>
  After the options (the checks that \<open>-c\<close> and \<open>-v\<close> are given and that the capture
  device opens end the program otherwise and are left out): the aspect-ratio check of
  \<open>vidGeo\<close> compares floating-point quotients and is the parameter \<open>aspect_too_big\<close>; \<open>capture_geometry\<close> gives the width
  and height that the capture device reports once the requested geometry was set. The
  result is the pair \<open>(capGeo, vidGeo)\<close> with which \<open>main\<close> goes on: it opens the
  virtual device with \<open>loopback_init(s_vcam, vidGeo->first, vidGeo->second, debug)\<close> and
  sizes the mask and the frames that are packed for the device by \<open>vidGeo\<close>.
\<close>

definition resolve_geometry ::
  "(int \<Rightarrow> int \<Rightarrow> bool) \<Rightarrow> (int \<times> int \<Rightarrow> int \<times> int) \<Rightarrow> settings
     \<Rightarrow> exit + ((int \<times> int) \<times> (int \<times> int))" where
  "resolve_geometry aspect_too_big capture_geometry c =
     (if (case vidGeo c of Some (w, h) \<Rightarrow> aspect_too_big w h | None \<Rightarrow> False) then Inl Usage
      else if setWorH c \<and> (capGeo c \<noteq> None \<or> vidGeo c \<noteq> None) then Inl Usage
      else
        (let capGeo1 = (case capGeo c of None \<Rightarrow> (width c, height c) | Some g \<Rightarrow> g);
             tmpGeo = capture_geometry capGeo1;
             capGeo2 = (if tmpGeo \<noteq> capGeo1 then tmpGeo else capGeo1);
             vidGeo1 = (case vidGeo c of None \<Rightarrow> capGeo2 | Some g \<Rightarrow> g)
         in Inr (capGeo2, vidGeo1)))"

definition main_geometry ::
  "(int \<Rightarrow> int \<Rightarrow> bool) \<Rightarrow> (int \<times> int \<Rightarrow> int \<times> int) \<Rightarrow> option_arg list
     \<Rightarrow> exit + ((int \<times> int) \<times> (int \<times> int))" where
  "main_geometry aspect_too_big capture_geometry args =
     (case parse_options args initial_settings of
        Inl e \<Rightarrow> Inl e
      | Inr c \<Rightarrow> resolve_geometry aspect_too_big capture_geometry c)"

section \<open>main: the frame-rate divisor and the throttling loop\<close>

text \<open>
  \<open>fps\<close>, \<open>maxFps\<close> and \<open>fpsDivisor\<close> are 32-bit \<open>int\<close>s. \<open>c_int\<close> wraps a result into
  that range (two's complement); \<open>sdiv\<close> is C's truncating division.
\<close>

definition c_int :: "int \<Rightarrow> int" where
  "c_int x = signed_take_bit 31 x"

definition fps_divisor :: "int \<Rightarrow> int \<Rightarrow> int" where
  "fps_divisor fps maxFps =
     (if maxFps > 0 then c_int (c_int (fps + maxFps) - 1) sdiv maxFps else 1)"

text \<open>
  One round of the main loop as far as the throttle: \<open>no_frame\<close> says that the retrieved
  frame has no rows or no columns. \<open>skip++\<close> runs only below \<open>fpsDivisor\<close> and cannot
  overflow.
\<close>

datatype outcome = EmptyFrame | Skipped | Processed

definition mainloop_tick :: "int \<Rightarrow> int \<Rightarrow> bool \<Rightarrow> int \<times> outcome" where
  "mainloop_tick fpsDivisor skip no_frame =
     (if no_frame then (skip, EmptyFrame)
      else if skip < fpsDivisor then (skip + 1, Skipped)
      else (1, Processed))"

text \<open>The loop over a finite run of capture ticks, from a value of \<open>skip\<close> and the
  outcomes so far.\<close>

fun mainloop :: "int \<Rightarrow> int \<times> outcome list \<Rightarrow> bool list \<Rightarrow> int \<times> outcome list" where
  "mainloop fpsDivisor (skip, outs) [] = (skip, outs)"
| "mainloop fpsDivisor (skip, outs) (no_frame # ticks) =
     (case mainloop_tick fpsDivisor skip no_frame of
        (skip', out) \<Rightarrow> mainloop fpsDivisor (skip', outs @ [out]) ticks)"

text \<open>\<open>int skip = fpsDivisor; while(true) ...\<close>\<close>

definition throttle :: "int \<Rightarrow> bool list \<Rightarrow> outcome list" where
  "throttle fpsDivisor ticks = snd (mainloop fpsDivisor (fpsDivisor, []) ticks)"

section \<open>Properties of alpha_blend\<close>

lemma alpha_blend_loop_length:
  "length (alpha_blend_loop pix npix a b m out) = length out"
proof (induction pix npix a b m out rule: alpha_blend_loop.induct)
  case (1 pix npix a b m out)
  show ?case
  proof (cases "pix < npix")
    case True
    then show ?thesis
      using "1.IH" [OF True refl refl]
      by (subst alpha_blend_loop.simps) (simp add: Let_def)
  next
    case False
    then show ?thesis by (subst alpha_blend_loop.simps) simp
  qed
qed

text \<open>What the loop leaves at offset \<open>i\<close>: the blend of the bytes at \<open>i\<close>, weighted by the
  mask sample of pixel \<open>i div 3\<close>, for the pixels it visits; every other byte is untouched.\<close>

lemma alpha_blend_loop_nth:
  "i < length out \<Longrightarrow>
   alpha_blend_loop pix npix a b m out ! i =
     (if 3 * pix \<le> i \<and> i < 3 * npix
      then blend_byte (a ! i) (b ! i) (uint (m ! (i div 3))) (255 - uint (m ! (i div 3)))
      else out ! i)"
proof (induction pix npix a b m out rule: alpha_blend_loop.induct)
  case (1 pix npix a b m out)
  show ?case
  proof (cases "pix < npix")
    case False
    then have eq: "alpha_blend_loop pix npix a b m out = out"
      by (subst alpha_blend_loop.simps) simp
    from False have "\<not> (3 * pix \<le> i \<and> i < 3 * npix)" by linarith
    then show ?thesis by (simp only: eq if_False)
  next
    case True
    define out' where "out' =
      out[3 * pix := blend_byte (a ! (3 * pix)) (b ! (3 * pix)) (uint (m ! pix)) (255 - uint (m ! pix)),
          3 * pix + 1 := blend_byte (a ! (3 * pix + 1)) (b ! (3 * pix + 1)) (uint (m ! pix)) (255 - uint (m ! pix)),
          3 * pix + 2 := blend_byte (a ! (3 * pix + 2)) (b ! (3 * pix + 2)) (uint (m ! pix)) (255 - uint (m ! pix))]"
    have len: "i < length out'" using "1.prems" by (simp add: out'_def)
    have step: "alpha_blend_loop pix npix a b m out = alpha_blend_loop (pix + 1) npix a b m out'"
      using True by (subst alpha_blend_loop.simps) (simp add: Let_def out'_def)
    have ih: "alpha_blend_loop (pix + 1) npix a b m out' ! i =
        (if 3 * (pix + 1) \<le> i \<and> i < 3 * npix
         then blend_byte (a ! i) (b ! i) (uint (m ! (i div 3))) (255 - uint (m ! (i div 3)))
         else out' ! i)"
      using "1.IH" [OF True refl refl] len by (simp add: out'_def)
    consider "i < 3 * pix" | "i = 3 * pix" | "i = 3 * pix + 1" | "i = 3 * pix + 2" | "3 * (pix + 1) \<le> i"
      by atomize_elim arith
    then show ?thesis
    proof cases
      case 1
      then show ?thesis using ih "1.prems" by (simp add: step out'_def)
    next
      case 2
      then have "i div 3 = pix" by arith
      with 2 show ?thesis using ih "1.prems" True by (simp add: step out'_def)
    next
      case 3
      then have "i div 3 = pix" by arith
      with 3 show ?thesis using ih "1.prems" True by (simp add: step out'_def)
    next
      case 4
      then have "i div 3 = pix" by arith
      with 4 show ?thesis using ih "1.prems" True by (simp add: step out'_def)
    next
      case 5
      then show ?thesis using ih "1.prems" by (simp add: step out'_def)
    qed
  qed
qed

lemma sdiv_nonneg: "0 \<le> a \<Longrightarrow> 0 < b \<Longrightarrow> a sdiv b = a div (b::int)"
  by (cases "a = 0") (simp_all add: signed_divide_int_def sgn_if)

lemma blend_byte_uint:
  assumes "0 \<le> aw" "aw \<le> 255"
  shows "uint (blend_byte a b aw (255 - aw)) = (uint a * aw + uint b * (255 - aw)) div 255"
proof -
  define n where "n = uint a * aw + uint b * (255 - aw)"
  have a: "0 \<le> uint a" "uint a \<le> 255" and b: "0 \<le> uint b" "uint b \<le> 255"
    using uint_lt2p [of a] uint_lt2p [of b] by simp_all
  have "uint a * aw \<le> 255 * aw" using a assms by (intro mult_right_mono) simp_all
  moreover have "uint b * (255 - aw) \<le> 255 * (255 - aw)"
    using b assms by (intro mult_right_mono) simp_all
  ultimately have hi: "n \<le> 255 * 255" by (simp add: n_def)
  have lo: "0 \<le> n" using a b assms by (simp add: n_def)
  have sd: "n sdiv 255 = n div 255"
    using lo by (simp add: sdiv_nonneg)
  have "0 \<le> n div 255" using lo by simp
  moreover have "n div 255 < 256" using hi by simp
  ultimately have "uint (word_of_int (n div 255) :: u8) = n div 255"
    by (simp add: uint_word_of_int take_bit_int_eq_self)
  then show ?thesis by (simp add: blend_byte_def n_def [symmetric] sd)
qed

lemma blend_byte_255 [simp]: "blend_byte a b 255 0 = a"
  by (simp add: blend_byte_def sdiv_nonneg)

lemma blend_byte_0 [simp]: "blend_byte a b 0 255 = b"
  by (simp add: blend_byte_def sdiv_nonneg)

lemma alpha_blend_data_nth:
  assumes "i < 3 * npix"
  shows "alpha_blend_loop 0 npix a b m (replicate (3 * npix) 0) ! i =
           blend_byte (a ! i) (b ! i) (uint (m ! (i div 3))) (255 - uint (m ! (i div 3)))"
  using assms by (simp add: alpha_blend_loop_nth)

lemma alpha_blend_loop_first:
  assumes "length a = 3 * npix" and "\<forall>pix<npix. m ! pix = 255"
  shows "alpha_blend_loop 0 npix a b m (replicate (3 * npix) 0) = a"
proof (rule nth_equalityI)
  show "length (alpha_blend_loop 0 npix a b m (replicate (3 * npix) 0)) = length a"
    using assms by (simp add: alpha_blend_loop_length)
next
  fix i assume "i < length (alpha_blend_loop 0 npix a b m (replicate (3 * npix) 0))"
  then have i: "i < 3 * npix" by (simp add: alpha_blend_loop_length)
  then have "i div 3 < npix" by arith
  with assms have "m ! (i div 3) = 255" by simp
  with i show "alpha_blend_loop 0 npix a b m (replicate (3 * npix) 0) ! i = a ! i"
    by (simp add: alpha_blend_data_nth)
qed

lemma alpha_blend_loop_second:
  assumes "length b = 3 * npix" and "\<forall>pix<npix. m ! pix = 0"
  shows "alpha_blend_loop 0 npix a b m (replicate (3 * npix) 0) = b"
proof (rule nth_equalityI)
  show "length (alpha_blend_loop 0 npix a b m (replicate (3 * npix) 0)) = length b"
    using assms by (simp add: alpha_blend_loop_length)
next
  fix i assume "i < length (alpha_blend_loop 0 npix a b m (replicate (3 * npix) 0))"
  then have i: "i < 3 * npix" by (simp add: alpha_blend_loop_length)
  then have "i div 3 < npix" by arith
  with assms have "m ! (i div 3) = 0" by simp
  with i show "alpha_blend_loop 0 npix a b m (replicate (3 * npix) 0) ! i = b ! i"
    by (simp add: alpha_blend_data_nth)
qed

lemma alpha_blend_Some:
  assumes "rows srca = rows srcb" "cols srca = cols srcb"
    and "rows msk = rows srca" "cols msk = cols srca"
    and "mtype srca = CV_8UC3" "mtype srcb = CV_8UC3" "mtype msk = CV_8UC1"
  shows "alpha_blend srca srcb msk =
    Some \<lparr>rows = rows srca, cols = cols srca, mtype = CV_8UC3,
          data = alpha_blend_loop 0 (rows srca * cols srca) (data srca) (data srcb) (data msk)
                   (replicate (3 * (rows srca * cols srca)) 0)\<rparr>"
  using assms by (simp add: alpha_blend_def Mat_zeros_def Let_def mult.commute)

text \<open>
  Claim C1, as the code has it. \<open>main\<close> calls \<open>alpha_blend(bg, raw[idx], mask)\<close>: the
  background is the first argument \<open>srca\<close> and the captured frame the second argument
  \<open>srcb\<close>. For frames of equal geometry, every output byte is
  \<open>(bg_byte * mask + frame_byte * (255 - mask)) / 255\<close> with truncating division, where
  \<open>mask\<close> is the sample of the byte's pixel. So the mask weighs the first argument:
  where every sample is 255 the result is the background \<open>bg\<close> exactly, and where every
  sample is 0 the result is the captured frame \<open>fg\<close> exactly.
\<close>

theorem alpha_blend_weights_first_argument:
  assumes "wf_mat bg" "wf_mat fg" "wf_mat msk"
    and "rows bg = rows fg" "cols bg = cols fg"
    and "rows msk = rows bg" "cols msk = cols bg"
    and "mtype bg = CV_8UC3" "mtype fg = CV_8UC3" "mtype msk = CV_8UC1"
  shows "\<exists>out. alpha_blend bg fg msk = Some out
      \<and> rows out = rows bg \<and> cols out = cols bg \<and> mtype out = CV_8UC3
      \<and> length (data out) = 3 * (rows bg * cols bg)
      \<and> (\<forall>pix<rows bg * cols bg. \<forall>c<3.
            uint (data out ! (3 * pix + c)) =
              (uint (data bg ! (3 * pix + c)) * uint (data msk ! pix)
                + uint (data fg ! (3 * pix + c)) * (255 - uint (data msk ! pix))) div 255)
      \<and> ((\<forall>pix<rows bg * cols bg. data msk ! pix = 255) \<longrightarrow> out = bg)
      \<and> ((\<forall>pix<rows bg * cols bg. data msk ! pix = 0) \<longrightarrow> out = fg)"
proof -
  define npix where "npix = rows bg * cols bg"
  define d where "d = alpha_blend_loop 0 npix (data bg) (data fg) (data msk) (replicate (3 * npix) 0)"
  define out where "out = \<lparr>rows = rows bg, cols = cols bg, mtype = CV_8UC3, data = d\<rparr>"
  have res: "alpha_blend bg fg msk = Some out"
    using assms(4-10) by (simp add: alpha_blend_Some out_def d_def npix_def)
  have lbg: "length (data bg) = 3 * npix" and lfg: "length (data fg) = 3 * npix"
    using assms by (simp_all add: wf_mat_def npix_def)
  have len: "length d = 3 * npix"
    by (simp add: d_def alpha_blend_loop_length)
  have formula: "uint (d ! (3 * pix + c)) =
              (uint (data bg ! (3 * pix + c)) * uint (data msk ! pix)
                + uint (data fg ! (3 * pix + c)) * (255 - uint (data msk ! pix))) div 255"
    if "pix < npix" "c < 3" for pix c
  proof -
    have i: "3 * pix + c < 3 * npix" and dv: "(3 * pix + c) div 3 = pix"
      using that by simp_all
    have m: "0 \<le> uint (data msk ! pix)" "uint (data msk ! pix) \<le> 255"
      using uint_lt2p [of "data msk ! pix"] by simp_all
    show ?thesis
      unfolding d_def alpha_blend_data_nth [OF i] dv
      by (rule blend_byte_uint [OF m])
  qed
  have first: "out = bg" if "\<forall>pix<npix. data msk ! pix = 255"
    using alpha_blend_loop_first [OF lbg that] assms(8) by (simp add: out_def d_def)
  have second: "out = fg" if "\<forall>pix<npix. data msk ! pix = 0"
    using alpha_blend_loop_second [OF lfg that] assms(4,5,9) by (simp add: out_def d_def)
  show ?thesis
    using res len formula first second
    unfolding npix_def [symmetric]
    by (intro exI [of _ out]) (simp add: out_def)
qed

theorem alpha_blend_weights_first_argument_witness:
  "alpha_blend
     \<lparr>rows = 1, cols = 2, mtype = CV_8UC3, data = [0, 255, 0, 0, 255, 0]\<rparr>
     \<lparr>rows = 1, cols = 2, mtype = CV_8UC3, data = [10, 20, 30, 40, 50, 60]\<rparr>
     \<lparr>rows = 1, cols = 2, mtype = CV_8UC1, data = [255, 255]\<rparr>
   = Some \<lparr>rows = 1, cols = 2, mtype = CV_8UC3, data = [0, 255, 0, 0, 255, 0]\<rparr>"
proof -
  let ?bg = "\<lparr>rows = 1, cols = 2, mtype = CV_8UC3, data = [0, 255, 0, 0, 255, 0 :: u8]\<rparr>"
  let ?fg = "\<lparr>rows = 1, cols = 2, mtype = CV_8UC3, data = [10, 20, 30, 40, 50, 60 :: u8]\<rparr>"
  let ?m = "\<lparr>rows = 1, cols = 2, mtype = CV_8UC1, data = [255, 255 :: u8]\<rparr>"
  have all: "\<forall>pix<rows ?bg * cols ?bg. data ?m ! pix = 255"
    by (simp add: less_Suc_eq numeral_2_eq_2)
  from alpha_blend_weights_first_argument [of ?bg ?fg ?m] all
  show ?thesis by (auto simp: wf_mat_def)
qed

text \<open>
  The claim as written fails: with a mask that is 255 everywhere the result of
  \<open>alpha_blend(bg, F, M)\<close> is \<open>bg\<close>, not \<open>F\<close>, and with a mask that is 0 everywhere it is
  \<open>F\<close>, not \<open>bg\<close> (one green pixel over one grey pixel).
\<close>

theorem alpha_blend_mask255_gives_frame_counterexample:
  "alpha_blend
     \<lparr>rows = 1, cols = 1, mtype = CV_8UC3, data = [0, 255, 0]\<rparr>
     \<lparr>rows = 1, cols = 1, mtype = CV_8UC3, data = [90, 90, 90]\<rparr>
     \<lparr>rows = 1, cols = 1, mtype = CV_8UC1, data = [255]\<rparr>
   \<noteq> Some \<lparr>rows = 1, cols = 1, mtype = CV_8UC3, data = [90, 90, 90]\<rparr>
   \<and> alpha_blend
     \<lparr>rows = 1, cols = 1, mtype = CV_8UC3, data = [0, 255, 0]\<rparr>
     \<lparr>rows = 1, cols = 1, mtype = CV_8UC3, data = [90, 90, 90]\<rparr>
     \<lparr>rows = 1, cols = 1, mtype = CV_8UC1, data = [0]\<rparr>
   \<noteq> Some \<lparr>rows = 1, cols = 1, mtype = CV_8UC3, data = [0, 255, 0]\<rparr>"
proof -
  have a: "alpha_blend_loop 0 1 [0, 255, 0] [90, 90, 90] [255] (replicate (3 * 1) 0) = [0, 255, 0]"
    by (rule alpha_blend_loop_first) simp_all
  have b: "alpha_blend_loop 0 1 [0, 255, 0] [90, 90, 90] [0] (replicate (3 * 1) 0) = [90, 90, 90]"
    by (rule alpha_blend_loop_second) simp_all
  show ?thesis
    using a b by (simp add: alpha_blend_Some)
qed

section \<open>Properties of convert_rgb_to_yuyv\<close>

lemma chroma_pair_uint: "uint (chroma_pair c0 c1) = (uint c0 + uint c1) div 2"
proof -
  have b: "0 \<le> uint c0" "uint c0 < 256" "0 \<le> uint c1" "uint c1 < 256"
    using uint_lt2p [of c0] uint_lt2p [of c1] by simp_all
  then have "0 \<le> (uint c0 + uint c1) div 2" "(uint c0 + uint c1) div 2 < 256"
    by simp_all
  then have "uint (word_of_int ((uint c0 + uint c1) div 2) :: u8) = (uint c0 + uint c1) div 2"
    by (simp add: uint_word_of_int take_bit_int_eq_self)
  moreover have "(uint c0 + uint c1) sdiv 2 = (uint c0 + uint c1) div 2"
    using b by (simp add: sdiv_nonneg)
  ultimately show ?thesis by (simp add: chroma_pair_def)
qed

text \<open>The loop started at an even pixel index of an even pixel count: it returns, keeps
  the bytes before offset \<open>2 * i\<close> and packs every later pair \<open>k\<close> into four bytes.\<close>

lemma yuyv_loop_pairs:
  assumes "even i" "even tot" "length outdata = 2 * tot"
  shows "\<exists>out. yuyv_loop i tot y u v outdata = Some out \<and> length out = 2 * tot
     \<and> (\<forall>j<2 * i. out ! j = outdata ! j)
     \<and> (\<forall>k. i \<le> 2 * k \<and> 2 * k < tot \<longrightarrow>
            out ! (4 * k) = y ! (2 * k)
          \<and> out ! (4 * k + 1) = chroma_pair (v ! (2 * k)) (v ! (2 * k + 1))
          \<and> out ! (4 * k + 2) = y ! (2 * k + 1)
          \<and> out ! (4 * k + 3) = chroma_pair (u ! (2 * k)) (u ! (2 * k + 1)))"
  using assms
proof (induction i tot y u v outdata rule: yuyv_loop.induct)
  case (1 i tot y u v outdata)
  show ?case
  proof (cases "i < tot")
    case False
    then have "yuyv_loop i tot y u v outdata = Some outdata"
      by (subst yuyv_loop.simps) simp
    moreover have "\<not> (i \<le> 2 * k \<and> 2 * k < tot)" for k using False by linarith
    ultimately show ?thesis using "1.prems" by blast
  next
    case True
    with "1.prems" have lt: "i + 1 < tot" by (auto elim!: evenE)
    define out1 where "out1 = outdata[2 * i + 0 := y ! (i + 0),
                          2 * i + 1 := chroma_pair (v ! i) (v ! (i + 1)),
                          2 * i + 2 := y ! (i + 1),
                          2 * i + 3 := chroma_pair (u ! i) (u ! (i + 1))]"
    have step: "yuyv_loop i tot y u v outdata = yuyv_loop (i + 2) tot y u v out1"
      using True lt by (subst yuyv_loop.simps) (simp add: Let_def out1_def)
    have len1: "length out1 = 2 * tot" using "1.prems" by (simp add: out1_def)
    have "even (i + 2)" using "1.prems" by simp
    from "1.IH" [OF True lt refl refl this "1.prems"(2)] len1
    obtain out where out: "yuyv_loop (i + 2) tot y u v out1 = Some out" "length out = 2 * tot"
      and keep: "\<And>j. j < 2 * (i + 2) \<Longrightarrow> out ! j = out1 ! j"
      and pairs: "\<And>k. i + 2 \<le> 2 * k \<Longrightarrow> 2 * k < tot \<Longrightarrow>
            out ! (4 * k) = y ! (2 * k)
          \<and> out ! (4 * k + 1) = chroma_pair (v ! (2 * k)) (v ! (2 * k + 1))
          \<and> out ! (4 * k + 2) = y ! (2 * k + 1)
          \<and> out ! (4 * k + 3) = chroma_pair (u ! (2 * k)) (u ! (2 * k + 1))"
      unfolding out1_def [symmetric] by blast
    have room: "2 * i + 3 < length outdata" using lt "1.prems" by simp
    have before: "out ! j = outdata ! j" if "j < 2 * i" for j
      using keep [of j] that by (simp add: out1_def)
    have here: "out ! (4 * k) = y ! (2 * k)
          \<and> out ! (4 * k + 1) = chroma_pair (v ! (2 * k)) (v ! (2 * k + 1))
          \<and> out ! (4 * k + 2) = y ! (2 * k + 1)
          \<and> out ! (4 * k + 3) = chroma_pair (u ! (2 * k)) (u ! (2 * k + 1))"
      if "i \<le> 2 * k" "2 * k < tot" for k
    proof (cases "i = 2 * k")
      case False
      with that "1.prems"(1) have "i + 2 \<le> 2 * k" by (auto elim!: evenE)
      with that show ?thesis using pairs by blast
    next
      case ik: True
      have "out ! (4 * k) = out1 ! (2 * i)" "out ! (4 * k + 1) = out1 ! (2 * i + 1)"
        "out ! (4 * k + 2) = out1 ! (2 * i + 2)" "out ! (4 * k + 3) = out1 ! (2 * i + 3)"
        using keep [of "4 * k"] keep [of "4 * k + 1"] keep [of "4 * k + 2"] keep [of "4 * k + 3"]
        by (simp_all add: ik)
      moreover have "out1 ! (2 * i) = y ! i" "out1 ! (2 * i + 1) = chroma_pair (v ! i) (v ! (i + 1))"
        "out1 ! (2 * i + 2) = y ! (i + 1)" "out1 ! (2 * i + 3) = chroma_pair (u ! i) (u ! (i + 1))"
        using room by (simp_all add: out1_def)
      ultimately show ?thesis by (simp add: ik)
    qed
    show ?thesis
      unfolding step using out before here by blast
  qed
qed

lemma pixels_length: "length (pixels xs) = length xs div 3"
  by (induction xs rule: pixels.induct) simp_all

lemma pixels_nth:
  "p < length xs div 3 \<Longrightarrow> pixels xs ! p = (xs ! (3 * p), xs ! (3 * p + 1), xs ! (3 * p + 2))"
proof (induction xs arbitrary: p rule: pixels.induct)
  case (1 r g b rest)
  then show ?case by (cases p) simp_all
qed simp_all

text \<open>
  Claim C9, as the code has it. For a three-channel frame with an even number of
  pixels, the packed buffer holds four bytes per pair \<open>k\<close> of consecutive pixels
  \<open>2k\<close>, \<open>2k+1\<close> of the row-major buffer: the luma of the first pixel, the second chroma
  \<open>v\<close> of the pair, the luma of the second pixel, the first chroma \<open>u\<close> of the pair. Luma
  bytes are copied unchanged; each chroma byte of the pair is the sum of the two pixels'
  chroma values divided by two with truncation, that is, the average rounded down.
\<close>

theorem convert_rgb_to_yuyv_packs_pairs:
  assumes "wf_mat input" "mtype input = CV_8UC3" "even (rows input * cols input)"
  shows "\<exists>out. convert_rgb_to_yuyv rgb2yuv input = Some out
      \<and> rows out = rows input \<and> cols out = cols input \<and> mtype out = CV_8UC2
      \<and> length (data out) = 2 * (rows input * cols input)
      \<and> (\<forall>k. 2 * k < rows input * cols input \<longrightarrow>
           (case (rgb2yuv (data input ! (6 * k), data input ! (6 * k + 1), data input ! (6 * k + 2)),
                  rgb2yuv (data input ! (6 * k + 3), data input ! (6 * k + 4), data input ! (6 * k + 5)))
            of ((y0, u0, v0), (y1, u1, v1)) \<Rightarrow>
                 data out ! (4 * k) = y0
               \<and> uint (data out ! (4 * k + 1)) = (uint v0 + uint v1) div 2
               \<and> data out ! (4 * k + 2) = y1
               \<and> uint (data out ! (4 * k + 3)) = (uint u0 + uint u1) div 2))"
proof -
  define tot where "tot = rows input * cols input"
  define px where "px = pixels (data input)"
  define y where "y = map fst (map rgb2yuv px)"
  define u where "u = map (fst \<circ> snd) (map rgb2yuv px)"
  define v where "v = map (snd \<circ> snd) (map rgb2yuv px)"
  have lpx: "length px = tot"
    using assms by (simp add: px_def pixels_length wf_mat_def tot_def)
  have split: "cvtColor_split rgb2yuv input = (y, u, v)"
    by (simp add: cvtColor_split_def Let_def y_def u_def v_def px_def)
  from yuyv_loop_pairs [of 0 tot "replicate (tot * 2) 0" y u v] assms(3)
  obtain d where d: "yuyv_loop 0 tot y u v (replicate (tot * 2) 0) = Some d" "length d = 2 * tot"
    and pairs: "\<And>k. 2 * k < tot \<Longrightarrow>
            d ! (4 * k) = y ! (2 * k)
          \<and> d ! (4 * k + 1) = chroma_pair (v ! (2 * k)) (v ! (2 * k + 1))
          \<and> d ! (4 * k + 2) = y ! (2 * k + 1)
          \<and> d ! (4 * k + 3) = chroma_pair (u ! (2 * k)) (u ! (2 * k + 1))"
    unfolding tot_def [symmetric] by auto
  define out where "out = \<lparr>rows = rows input, cols = cols input, mtype = CV_8UC2, data = d\<rparr>"
  have res: "convert_rgb_to_yuyv rgb2yuv input = Some out"
    by (simp add: convert_rgb_to_yuyv_def split Let_def tot_def [symmetric] d out_def)
  have pair: "(case (rgb2yuv (data input ! (6 * k), data input ! (6 * k + 1), data input ! (6 * k + 2)),
                  rgb2yuv (data input ! (6 * k + 3), data input ! (6 * k + 4), data input ! (6 * k + 5)))
            of ((y0, u0, v0), (y1, u1, v1)) \<Rightarrow>
                 d ! (4 * k) = y0
               \<and> uint (d ! (4 * k + 1)) = (uint v0 + uint v1) div 2
               \<and> d ! (4 * k + 2) = y1
               \<and> uint (d ! (4 * k + 3)) = (uint u0 + uint u1) div 2)"
    if k: "2 * k < tot" for k
  proof -
    from k assms(3) have k1: "2 * k + 1 < tot" by (auto simp: tot_def elim!: evenE)
    have in3: "2 * k < length (data input) div 3" "2 * k + 1 < length (data input) div 3"
      using k k1 lpx by (simp_all add: px_def pixels_length)
    have p0: "px ! (2 * k) = (data input ! (6 * k), data input ! (6 * k + 1), data input ! (6 * k + 2))"
      using pixels_nth [OF in3(1)] by (simp add: px_def)
    have p1: "px ! (2 * k + 1) = (data input ! (6 * k + 3), data input ! (6 * k + 4), data input ! (6 * k + 5))"
      using pixels_nth [OF in3(2)] by (simp add: px_def add.commute)
    obtain y0 u0 v0 where c0: "rgb2yuv (px ! (2 * k)) = (y0, u0, v0)" by (cases "rgb2yuv (px ! (2 * k))")
    obtain y1 u1 v1 where c1: "rgb2yuv (px ! (2 * k + 1)) = (y1, u1, v1)" by (cases "rgb2yuv (px ! (2 * k + 1))")
    have planes: "y ! (2 * k) = y0" "u ! (2 * k) = u0" "v ! (2 * k) = v0"
      "y ! (2 * k + 1) = y1" "u ! (2 * k + 1) = u1" "v ! (2 * k + 1) = v1"
      using k k1 lpx c0 c1 by (simp_all add: y_def u_def v_def)
    have e0: "rgb2yuv (data input ! (6 * k), data input ! (6 * k + 1), data input ! (6 * k + 2)) = (y0, u0, v0)"
      using c0 unfolding p0 .
    have e1: "rgb2yuv (data input ! (6 * k + 3), data input ! (6 * k + 4), data input ! (6 * k + 5)) = (y1, u1, v1)"
      using c1 unfolding p1 .
    from pairs [OF k] have "d ! (4 * k) = y0" "d ! (4 * k + 1) = chroma_pair v0 v1"
      "d ! (4 * k + 2) = y1" "d ! (4 * k + 3) = chroma_pair u0 u1"
      unfolding planes by blast+
    then show ?thesis
      unfolding e0 e1 by (simp add: chroma_pair_uint)
  qed
  show ?thesis
    using res d(2) pair unfolding tot_def [symmetric]
    by (intro exI [of _ out]) (simp add: out_def)
qed

theorem convert_rgb_to_yuyv_packs_pairs_witness:
  "\<exists>out. convert_rgb_to_yuyv (\<lambda>(r, g, b). (g, b, r))
            \<lparr>rows = 1, cols = 2, mtype = CV_8UC3, data = [128, 100, 129, 128, 100, 130]\<rparr> = Some out
     \<and> length (data out) = 4
     \<and> data out ! 0 = 100 \<and> uint (data out ! 1) = 128
     \<and> data out ! 2 = 100 \<and> uint (data out ! 3) = 129"
proof -
  let ?input = "\<lparr>rows = 1, cols = 2, mtype = CV_8UC3, data = [128, 100, 129, 128, 100, 130 :: u8]\<rparr>"
  from convert_rgb_to_yuyv_packs_pairs [of ?input "\<lambda>(r, g, b). (g, b, r)"]
  obtain out where "convert_rgb_to_yuyv (\<lambda>(r, g, b). (g, b, r)) ?input = Some out"
    "length (data out) = 2 * (rows ?input * cols ?input)"
    "\<forall>k. 2 * k < rows ?input * cols ?input \<longrightarrow>
           (case ((\<lambda>(r, g, b). (g, b, r)) (data ?input ! (6 * k), data ?input ! (6 * k + 1), data ?input ! (6 * k + 2)),
                  (\<lambda>(r, g, b). (g, b, r)) (data ?input ! (6 * k + 3), data ?input ! (6 * k + 4), data ?input ! (6 * k + 5)))
            of ((y0, u0, v0), (y1, u1, v1)) \<Rightarrow>
                 data out ! (4 * k) = y0
               \<and> uint (data out ! (4 * k + 1)) = (uint v0 + uint v1) div 2
               \<and> data out ! (4 * k + 2) = y1
               \<and> uint (data out ! (4 * k + 3)) = (uint u0 + uint u1) div 2)"
    by (auto simp: wf_mat_def)
  note out = this
  from out(3) [rule_format, of 0]
  have b: "data out ! 0 = 100" "uint (data out ! 1) = 128"
    "data out ! Suc (Suc 0) = 100" "uint (data out ! 3) = 129"
    by simp_all
  have two: "Suc (Suc 0) = 2" by simp
  from out(1,2) b show ?thesis
    unfolding two by (intro exI [of _ out]) simp
qed

text \<open>
  The claim as written fails where the two chroma values of a pair have an odd sum. For
  the planes \<open>y = [100, 100]\<close>, \<open>u = [129, 130]\<close>, \<open>v = [128, 128]\<close> of a 2x1 frame the loop
  packs the \<open>u\<close> chroma 129, while the rounded average of 129 and 130 is 130. And a frame
  needs an even number of pixels: for the single pixel of a 1x1 frame the loop reaches
  for a second pixel that the planes do not have.
\<close>

theorem convert_rgb_to_yuyv_rounded_average_counterexample:
  "yuyv_loop 0 2 [100, 100] [129, 130] [128, 128] (replicate (2 * 2) 0) = Some [100, 128, 100, 129]
   \<and> spec_rounded_average 129 130 = 130
   \<and> uint (chroma_pair 129 130) \<noteq> spec_rounded_average (uint (129 :: u8)) (uint (130 :: u8))
   \<and> yuyv_loop 0 1 [100] [129] [128] (replicate (1 * 2) 0) = None"
proof -
  have "yuyv_loop 0 1 [100] [129] [128] (replicate (1 * 2) 0) = None"
    by (simp add: yuyv_loop.simps)
  moreover
  have "yuyv_loop 0 2 [100, 100] [129, 130] [128, 128] (replicate (2 * 2) 0) = Some [100, 128, 100, 129]"
    by code_simp
  moreover have r: "spec_rounded_average 129 130 = 130"
    by (simp add: spec_rounded_average_def round_def)
  moreover have "uint (chroma_pair 129 130) = 129"
    by (simp add: chroma_pair_uint)
  ultimately show ?thesis by (simp add: r)
qed

section \<open>Properties of CalcMask\<close>

declare run_step.simps [simp del]

lemma run_steps_add: "run_steps maskgen (a + b) s = run_steps maskgen b (run_steps maskgen a s)"
  by (induction a arbitrary: s) simp_all

lemma run_steps_Exited: "worker s = Exited \<Longrightarrow> run_steps maskgen n s = s"
  by (induction n) (simp_all add: run_step.simps)

lemma run_steps_asleep:
  "worker s = AtWaitFrame \<Longrightarrow> \<not> new_frame s \<Longrightarrow> run_steps maskgen n s = s"
  by (induction n) (simp_all add: run_step.simps)

lemma deref_assign_frame: "deref_frame (assign_frame r m s) r = m"
  by (cases r) simp_all

lemma deref_frame_more:
  "deref_frame (s\<lparr>new_frame := b\<rparr>) r = deref_frame s r"
  "deref_frame (s\<lparr>state := st\<rparr>) r = deref_frame s r"
  by (cases r; simp)+

lemma assign_frame_fields:
  "worker (assign_frame r m s) = worker s"
  "state (assign_frame r m s) = state s"
  "frame_next (assign_frame r m s) = frame_next s"
  "frame_current (assign_frame r m s) = frame_current s"
  "inferred (assign_frame r m s) = inferred s"
  by (cases r; simp)+

text \<open>What \<open>set_input_frame\<close> leaves behind, whatever was pending before.\<close>

lemma set_input_frame_fields:
  "worker (set_input_frame F s) = worker s"
  "state (set_input_frame F s) = state s"
  "frame_next (set_input_frame F s) = frame_next s"
  "frame_current (set_input_frame F s) = frame_current s"
  "inferred (set_input_frame F s) = inferred s"
  "new_frame (set_input_frame F s)"
  "deref_frame (set_input_frame F s) (frame_next s) = F"
  by (simp_all add: set_input_frame_def assign_frame_fields deref_frame_more deref_assign_frame)

lemma set_input_frame_other_buffer:
  "r \<noteq> frame_next s \<Longrightarrow> deref_frame (set_input_frame F s) r = deref_frame s r"
  by (cases r; cases "frame_next s"; simp add: set_input_frame_def)

lemma destructor_signal_fields:
  "worker (destructor_signal s) = worker s"
  "state (destructor_signal s) = DONE"
  "frame_next (destructor_signal s) = frame_next s"
  "frame_current (destructor_signal s) = frame_current s"
  "inferred (destructor_signal s) = inferred s"
  "new_frame (destructor_signal s)"
  "deref_frame (destructor_signal s) r = deref_frame s r"
  by (cases r; simp add: destructor_signal_def)+

text \<open>The worker's step out of the wait when \<open>new_frame\<close> is set: no test of \<open>state\<close>.\<close>

lemma run_step_wake:
  assumes "worker s = AtWaitFrame" "new_frame s"
  shows "worker (run_step maskgen s) = AtProcess"
    "state (run_step maskgen s) = state s"
    "\<not> new_frame (run_step maskgen s)"
    "frame_current (run_step maskgen s) = frame_next s"
    "frame_next (run_step maskgen s) = frame_current s"
    "deref_frame (run_step maskgen s) r = deref_frame s r"
    "inferred (run_step maskgen s) = inferred s"
  using assms by (cases r; simp add: run_step.simps)+

text \<open>The inference step.\<close>

lemma run_step_process:
  assumes "worker s = AtProcess"
  shows "inferred (run_step maskgen s) = inferred s @ [deref_frame s (frame_current s)]"
    "state (run_step maskgen s) = state s"
    "new_frame (run_step maskgen s) = new_frame s"
    "frame_current (run_step maskgen s) = frame_current s"
    "frame_next (run_step maskgen s) = frame_next s"
    "deref_frame (run_step maskgen s) r = deref_frame s r"
    "maskgen (deref_frame s (frame_current s)) = None \<Longrightarrow> worker (run_step maskgen s) = Failed"
    "maskgen (deref_frame s (frame_current s)) = Some m \<Longrightarrow> worker (run_step maskgen s) = AtPublish"
  using assms
  by (cases r; cases "mask_current s"; simp add: run_step.simps Let_def split: option.split)+

text \<open>Publication of the mask, release of the lock.\<close>

lemma run_step_publish:
  assumes "worker s = AtPublish"
  shows "worker (run_step maskgen s) = AtIterEnd"
    "inferred (run_step maskgen s) = inferred s"
    "state (run_step maskgen s) = state s"
    "new_frame (run_step maskgen s) = new_frame s"
    "frame_current (run_step maskgen s) = frame_current s"
    "frame_next (run_step maskgen s) = frame_next s"
    "deref_frame (run_step maskgen s) r = deref_frame s r"
  using assms by (cases r; simp add: run_step.simps)+

lemma run_step_iter_end:
  assumes "worker s = AtIterEnd"
  shows "worker (run_step maskgen s) = AtLoopTest"
    "inferred (run_step maskgen s) = inferred s"
    "state (run_step maskgen s) = state s"
    "new_frame (run_step maskgen s) = new_frame s"
    "frame_current (run_step maskgen s) = frame_current s"
    "frame_next (run_step maskgen s) = frame_next s"
    "deref_frame (run_step maskgen s) r = deref_frame s r"
  using assms by (cases r; simp add: run_step.simps)+

lemma run_step_loop_test:
  assumes "worker s = AtLoopTest"
  shows "worker (run_step maskgen s) = (if state s = RUNNING then AtWaitFrame else Exited)"
    "inferred (run_step maskgen s) = inferred s"
    "state (run_step maskgen s) = state s"
    "new_frame (run_step maskgen s) = new_frame s"
    "frame_current (run_step maskgen s) = frame_current s"
    "frame_next (run_step maskgen s) = frame_next s"
    "deref_frame (run_step maskgen s) r = deref_frame s r"
  using assms by (cases r; simp add: run_step.simps)+

lemma run_steps_2: "run_steps maskgen 2 s = run_step maskgen (run_step maskgen s)"
  by (simp add: numeral_2_eq_2)

lemma run_steps_5:
  "run_steps maskgen 5 s =
     run_step maskgen (run_step maskgen (run_step maskgen (run_step maskgen (run_step maskgen s))))"
  by (simp add: eval_nat_numeral)

text \<open>
  One round of the worker from the wait with \<open>new_frame\<close> set, when the inference
  succeeds: five steps later the frame that \<open>frame_next\<close> referred to has been handed to
  the inference, the two frame pointers are exchanged, and the worker is at the wait again
  when \<open>state\<close> is \<open>RUNNING\<close> and has left \<open>run\<close> otherwise.
\<close>

lemma worker_round:
  assumes "worker s = AtWaitFrame" "new_frame s"
    and "maskgen (deref_frame s (frame_next s)) = Some m"
  shows "worker (run_steps maskgen 5 s) = (if state s = RUNNING then AtWaitFrame else Exited)"
    "inferred (run_steps maskgen 5 s) = inferred s @ [deref_frame s (frame_next s)]"
    "state (run_steps maskgen 5 s) = state s"
    "\<not> new_frame (run_steps maskgen 5 s)"
    "frame_current (run_steps maskgen 5 s) = frame_next s"
    "frame_next (run_steps maskgen 5 s) = frame_current s"
    "deref_frame (run_steps maskgen 5 s) r = deref_frame s r"
proof -
  define s1 where "s1 = run_step maskgen s"
  define s2 where "s2 = run_step maskgen s1"
  define s3 where "s3 = run_step maskgen s2"
  define s4 where "s4 = run_step maskgen s3"
  note w = run_step_wake [OF assms(1,2), of maskgen, folded s1_def]
  have cur: "deref_frame s1 (frame_current s1) = deref_frame s (frame_next s)"
    by (simp only: w)
  note p = run_step_process [OF w(1), of maskgen, folded s2_def]
  have "worker s2 = AtPublish" using p(8) [of m] assms(3) cur by simp
  note q = run_step_publish [OF this, of maskgen, folded s3_def]
  note e = run_step_iter_end [OF q(1), of maskgen, folded s4_def]
  note t = run_step_loop_test [OF e(1), of maskgen]
  have five: "run_steps maskgen 5 s = run_step maskgen s4"
    by (simp only: run_steps_5 s1_def s2_def s3_def s4_def)
  show "worker (run_steps maskgen 5 s) = (if state s = RUNNING then AtWaitFrame else Exited)"
    by (simp only: five t e q p w)
  show "inferred (run_steps maskgen 5 s) = inferred s @ [deref_frame s (frame_next s)]"
    by (simp only: five t e q p cur w)
  show "state (run_steps maskgen 5 s) = state s"
    by (simp only: five t e q p w)
  have "new_frame (run_steps maskgen 5 s) = new_frame s1"
    by (simp only: five t e q p)
  then show "\<not> new_frame (run_steps maskgen 5 s)"
    using w(3) by blast
  show "frame_current (run_steps maskgen 5 s) = frame_next s"
    by (simp only: five t e q p w)
  show "frame_next (run_steps maskgen 5 s) = frame_current s"
    by (simp only: five t e q p w)
  show "deref_frame (run_steps maskgen 5 s) r = deref_frame s r"
    by (simp only: five t e q p w)
qed

text \<open>
  Claim C6. When no inference has completed since the last fetch (\<open>new_mask\<close> is not
  set), \<open>get_output_mask\<close> returns at once, whether or not the worker holds \<open>lock_mask\<close>,
  and neither the object nor the caller's buffer changes. The flag is not set in a new
  object, before the first inference has completed, and it is not set after a fetch that
  has returned, until the worker publishes the next mask.
\<close>

theorem get_output_mask_without_new_mask:
  "(\<not> new_mask s \<longrightarrow> get_output_mask s out = Some (s, out))
   \<and> get_output_mask CalcMask_new out = Some (CalcMask_new, out)
   \<and> (get_output_mask s out0 = Some (s1, out1) \<longrightarrow> get_output_mask s1 out = Some (s1, out))"
  by (auto simp: get_output_mask_def CalcMask_new_def split: if_splits)

theorem get_output_mask_without_new_mask_witness:
  "\<not> new_mask (CalcMask_new\<lparr>lock_mask_held := True\<rparr>)
   \<and> get_output_mask (CalcMask_new\<lparr>lock_mask_held := True\<rparr>)
         \<lparr>rows = 1, cols = 2, mtype = CV_8UC1, data = [7, 200]\<rparr>
       = Some (CalcMask_new\<lparr>lock_mask_held := True\<rparr>,
               \<lparr>rows = 1, cols = 2, mtype = CV_8UC1, data = [7, 200]\<rparr>)"
proof -
  have n: "\<not> new_mask (CalcMask_new\<lparr>lock_mask_held := True\<rparr>)"
    by (simp add: CalcMask_new_def)
  from n get_output_mask_without_new_mask
         [of "CalcMask_new\<lparr>lock_mask_held := True\<rparr>"
             "\<lparr>rows = 1, cols = 2, mtype = CV_8UC1, data = [7, 200]\<rparr>"]
  show ?thesis by blast
qed

text \<open>
  Claim C7. \<open>set_input_frame\<close> is a total function of the object: it does not wait for
  the worker and overwrites a frame that is still pending. When \<open>F1\<close> and then \<open>F2\<close> are
  submitted while the worker waits for a frame, the worker's next step takes \<open>F2\<close> as
  \<open>*frame_current\<close> and clears \<open>new_frame\<close>; it hands exactly one frame, \<open>F2\<close>, to the
  inference, and when that inference has succeeded and its mask is published the worker
  is back at the wait, asleep, with nothing queued.
\<close>

theorem set_input_frame_latest_wins:
  assumes "worker s = AtWaitFrame" "state s = RUNNING" "maskgen F2 = Some m"
  shows "new_frame (set_input_frame F2 (set_input_frame F1 s))
     \<and> deref_frame (set_input_frame F2 (set_input_frame F1 s))
          (frame_next (set_input_frame F2 (set_input_frame F1 s))) = F2
     \<and> worker (run_step maskgen (set_input_frame F2 (set_input_frame F1 s))) = AtProcess
     \<and> \<not> new_frame (run_step maskgen (set_input_frame F2 (set_input_frame F1 s)))
     \<and> deref_frame (run_step maskgen (set_input_frame F2 (set_input_frame F1 s)))
          (frame_current (run_step maskgen (set_input_frame F2 (set_input_frame F1 s)))) = F2
     \<and> inferred (run_steps maskgen 5 (set_input_frame F2 (set_input_frame F1 s))) = inferred s @ [F2]
     \<and> worker (run_steps maskgen 5 (set_input_frame F2 (set_input_frame F1 s))) = AtWaitFrame
     \<and> \<not> new_frame (run_steps maskgen 5 (set_input_frame F2 (set_input_frame F1 s)))
     \<and> (\<forall>n. inferred (run_steps maskgen (5 + n) (set_input_frame F2 (set_input_frame F1 s)))
            = inferred s @ [F2])"
proof -
  define s1 where "s1 = set_input_frame F1 s"
  define s2 where "s2 = set_input_frame F2 s1"
  have w2: "worker s2 = AtWaitFrame" and st2: "state s2 = RUNNING"
    and log2: "inferred s2 = inferred s"
    using assms(1,2) by (simp_all only: s2_def s1_def set_input_frame_fields)
  have nf2: "new_frame s2"
    unfolding s2_def by (rule set_input_frame_fields)
  have "frame_next s2 = frame_next s1"
    unfolding s2_def by (rule set_input_frame_fields)
  then have next2: "deref_frame s2 (frame_next s2) = F2"
    by (simp only: s2_def set_input_frame_fields)
  note wake = run_step_wake [OF w2 nf2, of maskgen]
  have cur: "deref_frame (run_step maskgen s2) (frame_current (run_step maskgen s2)) = F2"
    by (simp only: wake next2)
  have mg: "maskgen (deref_frame s2 (frame_next s2)) = Some m"
    using assms(3) by (simp only: next2)
  note round = worker_round [where maskgen = maskgen and m = m, OF w2 nf2 mg]
  have w5: "worker (run_steps maskgen 5 s2) = AtWaitFrame"
    using st2 by (simp add: round(1))
  have log5: "inferred (run_steps maskgen 5 s2) = inferred s @ [F2]"
    by (simp only: round next2 log2)
  have later: "run_steps maskgen (5 + n) s2 = run_steps maskgen 5 s2" for n
    using run_steps_asleep [OF w5 round(4)] by (simp only: run_steps_add)
  show ?thesis
    unfolding s1_def [symmetric] s2_def [symmetric] later
    using nf2 next2 wake(1,3) cur log5 w5 round(4) by blast
qed

theorem set_input_frame_latest_wins_witness:
  "inferred
     (run_steps blank_maskgen 5
       (set_input_frame \<lparr>rows = 1, cols = 1, mtype = CV_8UC3, data = [4, 5, 6]\<rparr>
         (set_input_frame \<lparr>rows = 1, cols = 1, mtype = CV_8UC3, data = [1, 2, 3]\<rparr>
           (run_step blank_maskgen CalcMask_new))))
   = [\<lparr>rows = 1, cols = 1, mtype = CV_8UC3, data = [4, 5, 6]\<rparr>]"
proof -
  define mg where "mg = blank_maskgen"
  define F2 :: Mat where "F2 = \<lparr>rows = 1, cols = 1, mtype = CV_8UC3, data = [4, 5, 6]\<rparr>"
  define s0 where "s0 = run_step mg CalcMask_new"
  have s0: "worker s0 = AtWaitFrame" "state s0 = RUNNING" "inferred s0 = []"
    by (simp_all add: s0_def CalcMask_new_def run_step.simps)
  have mg: "mg F2 = Some (Mat_zeros (rows F2) (cols F2) CV_8UC1)"
    by (simp add: mg_def blank_maskgen_def)
  from set_input_frame_latest_wins [where maskgen = mg and ?F2.0 = F2, OF s0(1,2) mg]
  have "inferred (run_steps mg 5
          (set_input_frame F2 (set_input_frame \<lparr>rows = 1, cols = 1, mtype = CV_8UC3, data = [1, 2, 3]\<rparr> s0)))
        = inferred s0 @ [F2]"
    by blast
  then show ?thesis
    unfolding s0(3) unfolding s0_def mg_def F2_def by simp
qed

text \<open>
  Claim C2, as the code has it. The worker tests \<open>state\<close> only at the top of its loop,
  not after the condition wait. When the destructor sets \<open>state\<close> to done and \<open>new_frame\<close>
  to true while the worker sleeps in the wait, the worker's next step leaves the wait,
  swaps the frame pointers and goes on to the inference: it hands the buffer that was
  \<open>*frame_next\<close>, which no submission has refreshed, to \<open>bs_maskgen_process\<close>. When
  that call fails the program exits there; otherwise the mask is published, the loop test
  sees the flag, and the worker has left \<open>run\<close> after five steps, without any frame
  submission and with exactly this one inference started after the stop signal.
\<close>

theorem worker_infers_once_more_after_stop:
  assumes "worker s = AtWaitFrame" "\<not> new_frame s"
  shows "worker (run_step maskgen (destructor_signal s)) = AtProcess
     \<and> inferred (run_steps maskgen 2 (destructor_signal s)) = inferred s @ [deref_frame s (frame_next s)]
     \<and> (maskgen (deref_frame s (frame_next s)) = None \<longrightarrow>
           worker (run_steps maskgen 2 (destructor_signal s)) = Failed)
     \<and> (maskgen (deref_frame s (frame_next s)) \<noteq> None \<longrightarrow>
           (\<forall>n. worker (run_steps maskgen (5 + n) (destructor_signal s)) = Exited
              \<and> inferred (run_steps maskgen (5 + n) (destructor_signal s))
                   = inferred s @ [deref_frame s (frame_next s)]))"
proof -
  define F where "F = deref_frame s (frame_next s)"
  define s1 where "s1 = destructor_signal s"
  have w1: "worker s1 = AtWaitFrame" and log1: "inferred s1 = inferred s"
    and st1: "state s1 = DONE"
    using assms(1) by (simp_all only: s1_def destructor_signal_fields)
  have nf1: "new_frame s1"
    unfolding s1_def by (rule destructor_signal_fields)
  have next1: "deref_frame s1 (frame_next s1) = F"
    by (simp only: s1_def destructor_signal_fields F_def)
  note wake = run_step_wake [OF w1 nf1, of maskgen]
  have cur: "deref_frame (run_step maskgen s1) (frame_current (run_step maskgen s1)) = F"
    by (simp only: wake next1)
  note proc = run_step_process [OF wake(1), of maskgen]
  have log2: "inferred (run_steps maskgen 2 s1) = inferred s @ [F]"
    by (simp only: run_steps_2 proc(1) cur wake(7) log1)
  have fail: "worker (run_steps maskgen 2 s1) = Failed" if "maskgen F = None"
    using proc(7) that by (simp only: run_steps_2 cur)
  have ok: "worker (run_steps maskgen (5 + n) s1) = Exited
      \<and> inferred (run_steps maskgen (5 + n) s1) = inferred s @ [F]"
    if "maskgen F \<noteq> None" for n
  proof -
    from that obtain m where "maskgen F = Some m" by blast
    then have mg: "maskgen (deref_frame s1 (frame_next s1)) = Some m"
      by (simp only: next1)
    note round = worker_round [where maskgen = maskgen and m = m, OF w1 nf1 mg]
    have w5: "worker (run_steps maskgen 5 s1) = Exited"
      using st1 by (simp add: round(1))
    have log5: "inferred (run_steps maskgen 5 s1) = inferred s @ [F]"
      by (simp only: round next1 log1)
    have "run_steps maskgen (5 + n) s1 = run_steps maskgen 5 s1"
      using run_steps_Exited [OF w5] by (simp only: run_steps_add)
    with w5 log5 show ?thesis by simp
  qed
  show ?thesis
    unfolding s1_def [symmetric] F_def [symmetric]
    using wake(1) log2 fail ok by blast
qed

theorem worker_infers_once_more_after_stop_witness:
  "worker
     (run_steps blank_maskgen 5
       (destructor_signal
         (run_step blank_maskgen CalcMask_new)))
     = Exited
   \<and> inferred
     (run_steps blank_maskgen 5
       (destructor_signal
         (run_step blank_maskgen CalcMask_new)))
     = [Mat_empty]"
proof -
  define mg where "mg = blank_maskgen"
  define s0 where "s0 = run_step mg CalcMask_new"
  have s0: "worker s0 = AtWaitFrame" "\<not> new_frame s0"
    and s0': "inferred s0 = []" "deref_frame s0 (frame_next s0) = Mat_empty"
    by (simp_all add: s0_def CalcMask_new_def run_step.simps)
  have "mg (deref_frame s0 (frame_next s0)) \<noteq> None" by (simp add: mg_def blank_maskgen_def)
  with worker_infers_once_more_after_stop [where maskgen = mg, OF s0]
  have "worker (run_steps mg (5 + 0) (destructor_signal s0)) = Exited
      \<and> inferred (run_steps mg (5 + 0) (destructor_signal s0)) = inferred s0 @ [deref_frame s0 (frame_next s0)]"
    by blast
  then show ?thesis
    unfolding s0' unfolding s0_def mg_def by simp
qed

text \<open>
  The claim as written fails. A frame is submitted and processed and the worker sleeps
  in the wait again; then the destructor signals. The worker's next step does not leave
  \<open>run\<close> but stands before the inference, and its step after that has handed one more
  frame (the buffer behind \<open>frame_next\<close>, which was never written) to
  \<open>bs_maskgen_process\<close>.
\<close>

theorem worker_exits_before_inference_counterexample:
  "worker
     (run_steps blank_maskgen 5
       (set_input_frame \<lparr>rows = 1, cols = 1, mtype = CV_8UC3, data = [1, 2, 3]\<rparr>
         (run_step blank_maskgen CalcMask_new)))
     = AtWaitFrame
   \<and> \<not> new_frame
     (run_steps blank_maskgen 5
       (set_input_frame \<lparr>rows = 1, cols = 1, mtype = CV_8UC3, data = [1, 2, 3]\<rparr>
         (run_step blank_maskgen CalcMask_new)))
   \<and> worker
     (run_step blank_maskgen
       (destructor_signal
         (run_steps blank_maskgen 5
           (set_input_frame \<lparr>rows = 1, cols = 1, mtype = CV_8UC3, data = [1, 2, 3]\<rparr>
             (run_step blank_maskgen CalcMask_new)))))
     = AtProcess
   \<and> inferred
     (run_steps blank_maskgen 2
       (destructor_signal
         (run_steps blank_maskgen 5
           (set_input_frame \<lparr>rows = 1, cols = 1, mtype = CV_8UC3, data = [1, 2, 3]\<rparr>
             (run_step blank_maskgen CalcMask_new)))))
     = [\<lparr>rows = 1, cols = 1, mtype = CV_8UC3, data = [1, 2, 3]\<rparr>, Mat_empty]"
proof -
  define mg where "mg = blank_maskgen"
  define F :: Mat where "F = \<lparr>rows = 1, cols = 1, mtype = CV_8UC3, data = [1, 2, 3]\<rparr>"
  define s0 where "s0 = run_step mg CalcMask_new"
  have s0: "worker s0 = AtWaitFrame" "state s0 = RUNNING" "inferred s0 = []"
    "frame_next s0 = Frame1" "frame_current s0 = Frame2" "deref_frame s0 Frame2 = Mat_empty"
    by (simp_all add: s0_def CalcMask_new_def run_step.simps)
  define s1 where "s1 = set_input_frame F s0"
  have s1: "worker s1 = AtWaitFrame" "state s1 = RUNNING" "inferred s1 = []"
    "frame_next s1 = Frame1" "frame_current s1 = Frame2" "new_frame s1"
    using s0 by (simp_all add: s1_def set_input_frame_fields)
  have s1': "deref_frame s1 Frame1 = F" "deref_frame s1 Frame2 = Mat_empty"
    using set_input_frame_fields(7) [of F s0] set_input_frame_other_buffer [of Frame2 s0 F] s0
    by (simp_all add: s1_def del: deref_frame.simps)
  have "mg (deref_frame s1 (frame_next s1)) = Some (Mat_zeros (rows F) (cols F) CV_8UC1)"
    using s1 s1' by (simp add: mg_def blank_maskgen_def del: deref_frame.simps)
  note round = worker_round [where maskgen = mg, OF s1(1) s1(6) this]
  define s6 where "s6 = run_steps mg 5 s1"
  have s6: "worker s6 = AtWaitFrame" "inferred s6 = [F]" "frame_next s6 = Frame2"
    "deref_frame s6 Frame2 = Mat_empty" "\<not> new_frame s6"
    using round s1 s1' by (simp_all add: s6_def del: deref_frame.simps)
  define s7 where "s7 = destructor_signal s6"
  have s7: "worker s7 = AtWaitFrame" "new_frame s7" "inferred s7 = [F]" "frame_next s7 = Frame2"
    "deref_frame s7 Frame2 = Mat_empty"
    using s6 by (simp_all add: s7_def destructor_signal_fields del: deref_frame.simps)
  note wake = run_step_wake [OF s7(1,2), of mg]
  note proc = run_step_process [OF wake(1), of mg]
  have "worker (run_step mg s7) = AtProcess" by (rule wake)
  moreover have "inferred (run_steps mg 2 s7) = [F, Mat_empty]"
    using s7 by (simp add: run_steps_2 proc(1) wake del: deref_frame.simps)
  ultimately show ?thesis
    using s6(1,5) unfolding s7_def s6_def s1_def s0_def mg_def F_def by blast
qed

section \<open>Properties of the virtual output device\<close>

text \<open>Every failure of \<open>loopback_init\<close> after the device was opened closes the handle
  before it returns.\<close>

lemma loopback_init_failure_closes:
  assumes "0 \<le> sys (OPEN device)" and "fst (loopback_init sys device w h) < 0"
  shows "last (fst (snd (loopback_init sys device w h))) = CLOSE (sys (OPEN device))"
  using assms by (simp add: loopback_init_def Let_def split: if_splits)

text \<open>The calls of \<open>loopback_free\<close>: the handle is closed only when the stream was
  stopped.\<close>

lemma loopback_free_calls:
  "fst (snd (loopback_free sys fdwr)) =
     (if sys (VIDIOC_STREAMOFF fdwr) < 0 then [VIDIOC_STREAMOFF fdwr]
      else [VIDIOC_STREAMOFF fdwr, CLOSE fdwr])"
  by (simp add: loopback_free_def Let_def)

text \<open>
  Claim C3 at a failing input: the handle is 3 and the kernel refuses
  \<open>VIDIOC_STREAMOFF\<close>. \<open>loopback_free\<close> prints the message and returns \<open>-1\<close> at once; the
  only call it has made is the \<open>ioctl\<close>, and \<open>close\<close> is not called.
\<close>

theorem loopback_free_returns_before_close:
  "loopback_free (\<lambda>c. case c of VIDIOC_STREAMOFF fd \<Rightarrow> - 1 | _ \<Rightarrow> 0) 3
     = (- 1, [VIDIOC_STREAMOFF 3], [''Failed to stop streaming''])"
  by (simp add: loopback_free_def)

section \<open>Properties of the write loop\<close>

text \<open>When every call writes at least one byte and no more than it was asked for, the
  loop returns and the device has received as many bytes as the frame has.\<close>

lemma write_loop_count:
  assumes "\<And>k count. 0 < count \<Longrightarrow> 0 < sys_write k count \<and> sys_write k count \<le> count"
    and "0 \<le> framesize" "nat framesize \<le> length buf"
  shows "\<exists>out. write_loop sys_write k buf framesize sent = Inr out
           \<and> length out = length sent + nat framesize"
  using assms
proof (induction sys_write k buf framesize sent rule: write_loop.induct)
  case (1 sys_write k buf framesize sent)
  show ?case
  proof (cases "framesize > 0")
    case False
    with "1.prems"(2) show ?thesis by (subst write_loop.simps) simp
  next
    case True
    define ret where "ret = sys_write k framesize"
    have ret: "0 < ret" "ret \<le> framesize"
      using "1.prems"(1) [OF True, of k] by (simp_all add: ret_def)
    have step: "write_loop sys_write k buf framesize sent =
        write_loop sys_write (k + 1) buf (framesize - ret)
          (sent @ take (nat ret) (take (nat framesize) buf))"
      using True ret by (subst write_loop.simps) (simp add: Let_def ret_def)
    have "\<not> ret \<le> 0" using ret by simp
    moreover have "0 \<le> framesize - ret" "nat (framesize - ret) \<le> length buf"
      using ret "1.prems"(3) by simp_all
    ultimately obtain out where "write_loop sys_write (k + 1) buf (framesize - ret)
          (sent @ take (nat ret) (take (nat framesize) buf)) = Inr out"
      "length out = length (sent @ take (nat ret) (take (nat framesize) buf)) + nat (framesize - ret)"
      using "1.IH" [OF True ret_def _ "1.prems"(1)] by blast
    note out = this
    have "length (take (nat ret) (take (nat framesize) buf)) = nat ret"
      using ret "1.prems"(3) by simp
    moreover have "nat ret + nat (framesize - ret) = nat framesize"
      using ret by simp
    ultimately have "length out = length sent + nat framesize"
      using out(2) by simp
    with out(1) show ?thesis
      unfolding step by blast
  qed
qed

text \<open>When the first call takes the whole frame, the device has received the frame.\<close>

lemma write_frame_in_one_call:
  assumes "data frame \<noteq> []"
    and "sys_write 0 (int (length (data frame))) = int (length (data frame))"
  shows "write_frame sys_write frame = Inr (data frame)"
proof -
  have "0 < int (length (data frame))" using assms(1) by simp
  then have "write_loop sys_write 0 (data frame) (int (length (data frame))) [] =
      write_loop sys_write (0 + 1) (data frame) 0 ([] @ data frame)"
    using assms(2) by (subst write_loop.simps) (simp add: Let_def)
  also have "\<dots> = Inr (data frame)"
    by (subst write_loop.simps) simp
  finally show ?thesis by (simp add: write_frame_def)
qed

text \<open>
  Claim C4 at a failing input: a frame of four bytes and a device that takes two bytes
  per call. The loop returns after two calls, and the device has received the first two
  bytes twice; the last two bytes of the frame were never written.
\<close>

theorem write_frame_resends_the_start_of_the_buffer:
  "write_frame (\<lambda>k count. min 2 count)
     \<lparr>rows = 1, cols = 2, mtype = CV_8UC2, data = [1, 2, 3, 4]\<rparr> = Inr [1, 2, 1, 2]"
  by (simp add: write_frame_def write_loop.simps)

section \<open>Properties of the geometry\<close>

lemma smod_2_pos: "1 \<le> w \<Longrightarrow> w smod 2 = w mod (2 :: int)"
  by (simp add: signed_modulo_int_def sgn_if)

lemma parse_option_vidGeo_even:
  assumes "parse_option a c = Inr c'" and "\<And>w h. vidGeo c = Some (w, h) \<Longrightarrow> even w"
    and "vidGeo c' = Some (w', h')"
  shows "even w'"
proof (cases a)
  case (Opt_vg w h)
  with assms(1) have "1 \<le> w" "vidGeo c' = Some (w + w smod 2, h)"
    by (auto split: if_splits)
  with assms(3) have "w' = w + w mod 2" by (simp add: smod_2_pos)
  then show ?thesis by presburger
qed (use assms in \<open>auto split: if_splits\<close>)

lemma parse_options_vidGeo_even:
  assumes "parse_options args c = Inr c'" and "\<And>w h. vidGeo c = Some (w, h) \<Longrightarrow> even w"
    and "vidGeo c' = Some (w', h')"
  shows "even w'"
  using assms
proof (induction args arbitrary: c)
  case Nil
  then show ?case by simp
next
  case (Cons a args)
  from Cons.prems(1) obtain c1 where c1: "parse_option a c = Inr c1" "parse_options args c1 = Inr c'"
    by (auto split: sum.splits)
  have "even w" if "vidGeo c1 = Some (w, h)" for w h
    using parse_option_vidGeo_even [OF c1(1) _ that] Cons.prems(2) by blast
  from Cons.IH [OF c1(2) this Cons.prems(3)] show ?case .
qed

text \<open>When the virtual geometry is given on the command line, the output width is even.\<close>

lemma main_geometry_vg_even:
  assumes "main_geometry aspect_too_big capture_geometry args = Inr (cg, vg)"
    and "parse_options args initial_settings = Inr c" and "vidGeo c \<noteq> None"
  shows "even (fst vg)"
proof -
  from assms(3) obtain w h where wh: "vidGeo c = Some (w, h)" by (cases "vidGeo c") auto
  have "even w"
    by (rule parse_options_vidGeo_even [OF assms(2) _ wh]) (simp add: initial_settings_def)
  moreover have "vg = (w, h)"
    using assms(1,2) wh
    by (simp add: main_geometry_def resolve_geometry_def Let_def split: if_splits)
  ultimately show ?thesis by simp
qed

text \<open>
  Claim C5 at a failing input: the command line gives \<open>--cg 641x480\<close> and no virtual
  geometry, and the capture device reports the geometry it was asked for. The output
  geometry is taken from the capture geometry as it is; its width 641, with which the
  virtual device is opened and the packed buffers are sized, is odd.
\<close>

theorem main_geometry_odd_output_width:
  "main_geometry (\<lambda>w h. False) (\<lambda>requested. requested) [Opt_cg 641 480]
     = Inr ((641, 480), (641, 480))
   \<and> odd (641 :: int)"
  by (simp add: main_geometry_def resolve_geometry_def initial_settings_def Let_def)

section \<open>Properties of the throttling loop\<close>

lemma mainloop_outs:
  "mainloop d (s, outs) ticks =
     (fst (mainloop d (s, []) ticks), outs @ snd (mainloop d (s, []) ticks))"
proof (induction ticks arbitrary: s outs)
  case Nil
  show ?case by simp
next
  case (Cons t ticks)
  obtain s' out where t: "mainloop_tick d s t = (s', out)" by (cases "mainloop_tick d s t")
  show ?case
    using Cons.IH [of s' "outs @ [out]"] Cons.IH [of s' "[out]"] by (simp add: t)
qed

lemma mainloop_append:
  "mainloop d st (xs @ ys) = mainloop d (mainloop d st xs) ys"
proof (induction xs arbitrary: st)
  case Nil
  show ?case by (cases st) simp
next
  case (Cons x xs)
  obtain s outs where st: "st = (s, outs)" by (cases st)
  obtain s' out where t: "mainloop_tick d s x = (s', out)" by (cases "mainloop_tick d s x")
  show ?case using Cons.IH by (simp add: st t)
qed

lemma mainloop_length: "length (snd (mainloop d (s, outs) ticks)) = length outs + length ticks"
proof (induction ticks arbitrary: s outs)
  case Nil
  show ?case by simp
next
  case (Cons t ticks)
  obtain s' out where t: "mainloop_tick d s t = (s', out)" by (cases "mainloop_tick d s t")
  show ?case using Cons.IH [of s' "outs @ [out]"] by (simp add: t)
qed

text \<open>Empty frames leave \<open>skip\<close> alone.\<close>

lemma mainloop_no_frames:
  "mainloop d (s, outs) (replicate n True) = (s, outs @ replicate n EmptyFrame)"
proof (induction n arbitrary: outs)
  case 0
  show ?case by simp
next
  case (Suc n)
  show ?case
    using Suc.IH [of "outs @ [EmptyFrame]"]
    by (simp add: mainloop_tick_def replicate_app_Cons_same)
qed

text \<open>A run of frames below the divisor is skipped.\<close>

lemma mainloop_skips:
  "s + int j \<le> d \<Longrightarrow>
   mainloop d (s, outs) (replicate j False) = (s + int j, outs @ replicate j Skipped)"
proof (induction j arbitrary: s outs)
  case 0
  show ?case by simp
next
  case (Suc j)
  then have "s < d" "(s + 1) + int j \<le> d" by simp_all
  with Suc.IH [of "s + 1" "outs @ [Skipped]"] show ?case
    by (simp add: mainloop_tick_def replicate_app_Cons_same add.assoc)
qed

text \<open>From any value of \<open>skip\<close> between 1 and the divisor \<open>d\<close>, the next \<open>d\<close> frames are:
  \<open>d - skip\<close> skipped, one processed, \<open>skip - 1\<close> skipped; and \<open>skip\<close> is back where it was.\<close>

lemma mainloop_period:
  assumes "1 \<le> s" "s \<le> d"
  shows "mainloop d (s, outs) (replicate (nat d) False) =
     (s, outs @ replicate (nat (d - s)) Skipped @ [Processed] @ replicate (nat (s - 1)) Skipped)"
proof -
  have "nat d = nat (d - s) + (1 + nat (s - 1))" using assms by simp
  then have split: "replicate (nat d) False =
      replicate (nat (d - s)) False @ [False] @ replicate (nat (s - 1)) False"
    by (simp only: replicate_add) simp
  have a: "mainloop d (s, outs) (replicate (nat (d - s)) False) =
      (d, outs @ replicate (nat (d - s)) Skipped)"
    using mainloop_skips [of s "nat (d - s)" d outs] assms by simp
  have b: "mainloop d (d, outs') [False] = (1, outs' @ [Processed])" for outs'
    by (simp add: mainloop_tick_def)
  have c: "mainloop d (1, outs') (replicate (nat (s - 1)) False) =
      (s, outs' @ replicate (nat (s - 1)) Skipped)" for outs'
    using mainloop_skips [of 1 "nat (s - 1)" d outs'] assms by simp
  show ?thesis
    by (simp only: split mainloop_append a b c append_assoc)
qed

lemma mainloop_skip_range:
  assumes "1 \<le> s" "s \<le> d"
  shows "1 \<le> fst (mainloop d (s, outs) (replicate n False))
       \<and> fst (mainloop d (s, outs) (replicate n False)) \<le> d"
  using assms
proof (induction n arbitrary: s outs)
  case 0
  then show ?case by simp
next
  case (Suc n)
  show ?case
  proof (cases "s < d")
    case True
    with Suc.prems Suc.IH [of "s + 1" "outs @ [Skipped]"] show ?thesis
      by (simp add: mainloop_tick_def)
  next
    case False
    with Suc.prems Suc.IH [of 1 "outs @ [Processed]"] show ?thesis
      by (simp add: mainloop_tick_def)
  qed
qed

text \<open>Which frames are processed, by their position among the frames seen so far.\<close>

lemma mainloop_nth:
  assumes "1 \<le> s" "s \<le> d" "k < n"
  shows "snd (mainloop d (s, []) (replicate n False)) ! k =
           (if (int k + s) mod d = 0 then Processed else Skipped)"
  using assms
proof (induction n arbitrary: s k)
  case 0
  then show ?case by simp
next
  case (Suc n)
  show ?case
  proof (cases "s < d")
    case True
    have run: "snd (mainloop d (s, []) (replicate (Suc n) False)) =
        Skipped # snd (mainloop d (s + 1, []) (replicate n False))"
      using True mainloop_outs [of d "s + 1" "[Skipped]" "replicate n False"]
      by (simp add: mainloop_tick_def)
    show ?thesis
    proof (cases k)
      case 0
      have "s mod d = s" using True Suc.prems by simp
      with 0 Suc.prems show ?thesis unfolding run by simp
    next
      case k: (Suc k')
      have idx: "int k + s = int k' + (s + 1)" by (simp add: k)
      have nth: "snd (mainloop d (s, []) (replicate (Suc n) False)) ! k =
          snd (mainloop d (s + 1, []) (replicate n False)) ! k'"
        unfolding run by (simp add: k)
      show ?thesis
        unfolding nth idx using Suc.prems True k by (intro Suc.IH) simp_all
    qed
  next
    case False
    with Suc.prems have sd: "s = d" by simp
    have run: "snd (mainloop d (s, []) (replicate (Suc n) False)) =
        Processed # snd (mainloop d (1, []) (replicate n False))"
      using False mainloop_outs [of d 1 "[Processed]" "replicate n False"]
      by (simp add: mainloop_tick_def)
    show ?thesis
    proof (cases k)
      case 0
      then show ?thesis unfolding run by (simp add: sd)
    next
      case k: (Suc k')
      have idx: "(int k + s) mod d = (int k' + 1) mod d" by (simp add: k sd add.commute)
      have nth: "snd (mainloop d (s, []) (replicate (Suc n) False)) ! k =
          snd (mainloop d (1, []) (replicate n False)) ! k'"
        unfolding run by (simp add: k)
      show ?thesis
        unfolding nth idx using Suc.prems k by (intro Suc.IH) simp_all
    qed
  qed
qed

text \<open>Empty frames do not count: the outcomes of the frames that are not empty are those
  of the loop run on these frames alone.\<close>

lemma mainloop_filter:
  "fst (mainloop d (s, []) ticks) = fst (mainloop d (s, []) (filter (\<lambda>no_frame. \<not> no_frame) ticks))
   \<and> filter (\<lambda>out. out \<noteq> EmptyFrame) (snd (mainloop d (s, []) ticks))
       = snd (mainloop d (s, []) (filter (\<lambda>no_frame. \<not> no_frame) ticks))"
proof (induction ticks arbitrary: s)
  case Nil
  show ?case by simp
next
  case (Cons t ticks)
  show ?case
  proof (cases t)
    case True
    with Cons.IH [of s] mainloop_outs [of d s "[EmptyFrame]" ticks] show ?thesis
      by (simp add: mainloop_tick_def)
  next
    case False
    obtain s' out where t: "mainloop_tick d s False = (s', out)" "out \<noteq> EmptyFrame"
      by (cases "s < d") (simp_all add: mainloop_tick_def)
    with False Cons.IH [of s'] mainloop_outs [of d s' "[out]" ticks]
      mainloop_outs [of d s' "[out]" "filter (\<lambda>no_frame. \<not> no_frame) ticks"]
    show ?thesis by simp
  qed
qed

text \<open>
  Claim C10. Whatever the divisor, the first frame that is not empty is processed: the
  outcomes up to and including it are those of the empty frames before it and then
  \<open>Processed\<close>, so no frame is skipped before the second one.
\<close>

theorem first_frame_is_processed:
  "take (Suc n) (throttle d (replicate n True @ False # ticks)) = replicate n EmptyFrame @ [Processed]
   \<and> throttle d (replicate n True @ False # ticks) ! n = Processed
   \<and> Skipped \<notin> set (take (Suc n) (throttle d (replicate n True @ False # ticks)))"
proof -
  have "mainloop d (d, []) (replicate n True @ False # ticks) =
      mainloop d (1, replicate n EmptyFrame @ [Processed]) ticks"
    by (simp add: mainloop_append mainloop_no_frames mainloop_tick_def)
  then have run: "throttle d (replicate n True @ False # ticks) =
      (replicate n EmptyFrame @ [Processed]) @ snd (mainloop d (1, []) ticks)"
    using mainloop_outs [of d 1 "replicate n EmptyFrame @ [Processed]" ticks]
    by (simp add: throttle_def)
  have "take (Suc n) (throttle d (replicate n True @ False # ticks)) =
      replicate n EmptyFrame @ [Processed]"
    unfolding run by simp
  moreover have "throttle d (replicate n True @ False # ticks) ! n = Processed"
    unfolding run by (simp add: nth_append)
  ultimately show ?thesis by simp
qed

section \<open>Properties of the frame-rate divisor\<close>

lemma c_int_in_range: "- 2147483648 \<le> x \<Longrightarrow> x \<le> 2147483647 \<Longrightarrow> c_int x = x"
  by (simp add: c_int_def signed_take_bit_int_eq_self)

lemma ceiling_as_div:
  assumes "0 < (b::int)"
  shows "(a + b - 1) div b = \<lceil>real_of_int a / real_of_int b\<rceil>"
proof -
  define q where "q = (- a) div b"
  define r where "r = (- a) mod b"
  have r: "0 \<le> r" "r < b" using assms by (simp_all add: r_def)
  have "- a = b * q + r" by (simp add: q_def r_def)
  then have "a + b - 1 = (b - 1 - r) + b * (- q)" by (simp add: algebra_simps)
  moreover have "((b - 1 - r) + b * (- q)) div b = - q + (b - 1 - r) div b"
    using assms by (intro div_mult_self2) simp
  moreover have "(b - 1 - r) div b = 0" using r by (intro div_pos_pos_trivial) simp_all
  ultimately have "(a + b - 1) div b = - ((- a) div b)" by (simp only: q_def add_0_right)
  then show ?thesis by (simp only: ceiling_divide_eq_div)
qed

lemma fps_divisor_in_range:
  assumes "0 < fps" "0 < maxFps" "fps + maxFps \<le> 2147483647"
  shows "fps_divisor fps maxFps = (fps + maxFps - 1) div maxFps"
    and "1 \<le> fps_divisor fps maxFps"
proof -
  have "c_int (fps + maxFps) = fps + maxFps"
    using assms by (intro c_int_in_range) simp_all
  moreover have "c_int (fps + maxFps - 1) = fps + maxFps - 1"
    using assms by (intro c_int_in_range) simp_all
  moreover have "(fps + maxFps - 1) sdiv maxFps = (fps + maxFps - 1) div maxFps"
    using assms by (intro sdiv_nonneg) simp_all
  ultimately show eq: "fps_divisor fps maxFps = (fps + maxFps - 1) div maxFps"
    using assms(2) by (simp add: fps_divisor_def)
  have "maxFps div maxFps \<le> (fps + maxFps - 1) div maxFps"
    using assms by (intro zdiv_mono1) simp_all
  then show "1 \<le> fps_divisor fps maxFps" using assms(2) by (simp add: eq)
qed

text \<open>Any \<open>d\<close> consecutive frames of a run without empty frames: one is processed.\<close>

lemma throttle_window:
  assumes "1 \<le> d" "j + nat d \<le> n"
  shows "\<exists>s. 1 \<le> s \<and> s \<le> d \<and>
     take (nat d) (drop j (throttle d (replicate n False))) =
       replicate (nat (d - s)) Skipped @ [Processed] @ replicate (nat (s - 1)) Skipped"
proof -
  define s where "s = fst (mainloop d (d, []) (replicate j False))"
  define o1 where "o1 = snd (mainloop d (d, []) (replicate j False))"
  define W where "W = replicate (nat (d - s)) Skipped @ [Processed] @ replicate (nat (s - 1)) Skipped"
  define m where "m = n - (j + nat d)"
  have s: "1 \<le> s" "s \<le> d"
    using mainloop_skip_range [of d d "[]" j] assms(1) by (simp_all add: s_def)
  have first: "mainloop d (d, []) (replicate j False) = (s, o1)"
    by (simp add: s_def o1_def)
  have len1: "length o1 = j"
    using mainloop_length [of d d "[]" "replicate j False"] by (simp add: o1_def)
  have lenW: "length W = nat d" using s by (simp add: W_def)
  have "n = j + (nat d + m)" using assms(2) by (simp add: m_def)
  then have split: "replicate n False =
      replicate j False @ replicate (nat d) False @ replicate m False"
    by (simp only: replicate_add)
  have "mainloop d (d, []) (replicate n False) = mainloop d (s, o1 @ W) (replicate m False)"
    using mainloop_period [OF s, of o1]
    by (simp only: split mainloop_append first W_def)
  then have "throttle d (replicate n False) = (o1 @ W) @ snd (mainloop d (s, []) (replicate m False))"
    using mainloop_outs [of d s "o1 @ W" "replicate m False"] by (simp add: throttle_def)
  then have "take (nat d) (drop j (throttle d (replicate n False))) = W"
    using len1 lenW by simp
  with s show ?thesis unfolding W_def by blast
qed

lemma throttle_nth:
  assumes "1 \<le> d" "k < n"
  shows "throttle d (replicate n False) ! k = (if int k mod d = 0 then Processed else Skipped)"
  using mainloop_nth [of d d k n] assms by (simp add: throttle_def)

lemma throttle_filter:
  "filter (\<lambda>out. out \<noteq> EmptyFrame) (throttle d ticks)
     = throttle d (filter (\<lambda>no_frame. \<not> no_frame) ticks)"
  using mainloop_filter [of d d ticks] by (simp add: throttle_def)

text \<open>
  Claim C8, as the code has it. \<open>fps\<close> and \<open>maxFps\<close> are \<open>int\<close>s, and the sum
  \<open>fps + maxFps\<close> has to stay inside the range of \<open>int\<close>. For positive values within that
  bound the divisor is the quotient \<open>fps / maxFps\<close> rounded up, and it is at least 1.
  With that divisor \<open>d\<close>, among the frames that are not empty the one at position \<open>k\<close>
  (from 0) is processed when \<open>k\<close> is a multiple of \<open>d\<close> and skipped otherwise; any \<open>d\<close>
  consecutive ones hold exactly one processed and \<open>d - 1\<close> skipped frames; and empty
  frames do not count. At 60 fps with a maximum of 25 the divisor is 3, and of 9
  consecutive frames 3 are processed and 6 skipped.
\<close>

theorem fps_divisor_rounds_up_and_paces:
  assumes "0 < fps" "0 < maxFps" "fps + maxFps \<le> 2147483647"
    and "d = fps_divisor fps maxFps"
  shows "d = \<lceil>real_of_int fps / real_of_int maxFps\<rceil>
     \<and> 1 \<le> d
     \<and> (\<forall>n k. k < n \<longrightarrow>
           throttle d (replicate n False) ! k = (if int k mod d = 0 then Processed else Skipped))
     \<and> (\<forall>n j. j + nat d \<le> n \<longrightarrow>
           length (filter (\<lambda>out. out = Processed) (take (nat d) (drop j (throttle d (replicate n False))))) = 1
         \<and> length (filter (\<lambda>out. out = Skipped) (take (nat d) (drop j (throttle d (replicate n False)))))
             = nat d - 1)
     \<and> (\<forall>ticks. filter (\<lambda>out. out \<noteq> EmptyFrame) (throttle d ticks)
           = throttle d (filter (\<lambda>no_frame. \<not> no_frame) ticks))
     \<and> fps_divisor 60 25 = 3
     \<and> length (filter (\<lambda>out. out = Processed) (throttle (fps_divisor 60 25) (replicate 9 False))) = 3
     \<and> length (filter (\<lambda>out. out = Skipped) (throttle (fps_divisor 60 25) (replicate 9 False))) = 6"
proof -
  note range = fps_divisor_in_range [OF assms(1-3)]
  have ceil: "d = \<lceil>real_of_int fps / real_of_int maxFps\<rceil>"
    using ceiling_as_div [OF assms(2), of fps] by (simp add: assms(4) range(1))
  have d1: "1 \<le> d" using range(2) by (simp add: assms(4))
  have window: "length (filter (\<lambda>out. out = Processed) (take (nat d) (drop j (throttle d (replicate n False))))) = 1
         \<and> length (filter (\<lambda>out. out = Skipped) (take (nat d) (drop j (throttle d (replicate n False)))))
             = nat d - 1"
    if "j + nat d \<le> n" for n j
  proof -
    from throttle_window [OF d1 that] obtain s where s: "1 \<le> s" "s \<le> d"
      and W: "take (nat d) (drop j (throttle d (replicate n False))) =
         replicate (nat (d - s)) Skipped @ [Processed] @ replicate (nat (s - 1)) Skipped"
      by blast
    have "nat (d - s) + nat (s - 1) = nat d - 1" using s by simp
    then show ?thesis unfolding W by simp
  qed
  have sixty: "fps_divisor 60 25 = 3"
    by (simp add: fps_divisor_def c_int_def sdiv_nonneg)
  have nine: "throttle 3 (replicate 9 False)
      = [Processed, Skipped, Skipped, Processed, Skipped, Skipped, Processed, Skipped, Skipped]"
    by (simp add: throttle_def mainloop_tick_def eval_nat_numeral)
  show ?thesis
    using ceil d1 throttle_nth [OF d1] window throttle_filter [of d]
    by (simp add: sixty nine)
qed

theorem fps_divisor_rounds_up_and_paces_witness:
  "fps_divisor 60 25 = \<lceil>real_of_int 60 / real_of_int 25\<rceil>
   \<and> throttle (fps_divisor 60 25) (replicate 9 False) ! 3 = Processed
   \<and> throttle (fps_divisor 60 25) (replicate 9 False) ! 4 = Skipped"
proof -
  have "(0::int) < 60" "(0::int) < 25" "(60::int) + 25 \<le> 2147483647" by simp_all
  from fps_divisor_rounds_up_and_paces [OF this refl]
  have a: "fps_divisor 60 25 = \<lceil>real_of_int 60 / real_of_int 25\<rceil>"
    and b: "\<And>n k. k < n \<Longrightarrow> throttle (fps_divisor 60 25) (replicate n False) ! k =
           (if int k mod fps_divisor 60 25 = 0 then Processed else Skipped)"
    and c: "fps_divisor 60 25 = 3"
    by blast+
  from b [of 3 9] b [of 4 9] a show ?thesis by (simp add: c)
qed

text \<open>
  The claim as written fails at the edge of \<open>int\<close>: for a capture rate of 30 and
  \<open>--max-fps 2147483647\<close> the sum \<open>fps + maxFps\<close> wraps, and the divisor is 0 where the
  quotient rounded up is 1.
\<close>

theorem fps_divisor_wraps_counterexample:
  "fps_divisor 30 2147483647 = 0
   \<and> \<lceil>real_of_int 30 / real_of_int 2147483647\<rceil> = (1 :: int)"
proof -
  have "c_int (c_int (30 + 2147483647) - 1) = - 2147483620"
    by (simp add: c_int_def)
  then have "fps_divisor 30 2147483647 = 0"
    by (simp add: fps_divisor_def signed_divide_int_def)
  moreover have "\<lceil>real_of_int 30 / real_of_int 2147483647\<rceil> = (1 :: int)"
    by (simp add: ceiling_eq_iff)
  ultimately show ?thesis by simp
qed

end
